theory Spec2Isabelle
  imports Complex_Main "HOL-Library.AList"
begin

section \<open>Exceptions\<close>

text \<open>
  Every exception class that \<^verbatim>\<open>tooz/drivers/redis.py\<close> raises, catches or lets
  through is one constructor; the string is the message. The first four are the
  classes of \<^verbatim>\<open>redis.exceptions\<close> (all of them subclasses of \<^verbatim>\<open>RedisError\<close>;
  \<open>RedisResponseError\<close> stands for every \<^verbatim>\<open>RedisError\<close> that is none of the other
  three), \<open>FuturesTimeoutError\<close> is \<^verbatim>\<open>concurrent.futures.TimeoutError\<close>, the next
  seven are the classes of \<^verbatim>\<open>tooz.coordination\<close>, \<open>ValueError\<close> and
  \<open>AttributeError\<close> are the built-in ones, and \<open>OtherException\<close> is any
  exception that none of the handlers of the driver names.
\<close>

datatype exc =
    RedisConnectionError string
  | RedisTimeoutError string
  | RedisLockError string
  | RedisResponseError string
  | FuturesTimeoutError string
  | ToozError string
  | ToozConnectionError string
  | OperationTimedOut string
  | GroupAlreadyExist string
  | GroupNotCreated string
  | MemberAlreadyExist string string
  | MemberNotJoined string string
  | ValueError string
  | AttributeError string
  | OtherException string

text \<open>
  \<^verbatim>\<open>_translate_failures\<close>: the context manager re-raises a redis connection or
  timeout error as \<^verbatim>\<open>ToozConnectionError\<close>, any other \<^verbatim>\<open>RedisError\<close> as
  \<^verbatim>\<open>ToozError\<close>, and lets every other exception through.
\<close>

fun translate_failures :: "exc \<Rightarrow> exc" where
  "translate_failures (RedisConnectionError m) = ToozConnectionError m"
| "translate_failures (RedisTimeoutError m) = ToozConnectionError m"
| "translate_failures (RedisLockError m) = ToozError m"
| "translate_failures (RedisResponseError m) = ToozError m"
| "translate_failures e = e"

fun is_LockError :: "exc \<Rightarrow> bool" where
  "is_LockError (RedisLockError m) = True"
| "is_LockError e = False"

text \<open>
  Modelled from the spec: the class hierarchy of \<^verbatim>\<open>tooz.coordination\<close>, which
  \<^verbatim>\<open>except coordination.ToozError\<close> of \<^verbatim>\<open>RedisDriver.heartbeat\<close> depends on, is
  not among the sources. The spec lets the heartbeat survive every failure of a lock
  renewal, connectivity failures included, so every tooz exception is a \<^verbatim>\<open>ToozError\<close>.
\<close>

fun is_ToozError :: "exc \<Rightarrow> bool" where
  "is_ToozError (ToozError m) = True"
| "is_ToozError (ToozConnectionError m) = True"
| "is_ToozError (OperationTimedOut m) = True"
| "is_ToozError (GroupAlreadyExist g) = True"
| "is_ToozError (GroupNotCreated g) = True"
| "is_ToozError (MemberAlreadyExist g m) = True"
| "is_ToozError (MemberNotJoined g m) = True"
| "is_ToozError e = False"

section \<open>The redis server\<close>

text \<open>
  The key space of the server: a key holds a hash (fields with their values, in
  some order, no field twice), a set (its members, in some order, none twice) or
  a string (such as the token that the lock of the redis client stores under the
  name of a lock it holds).
  The commands below are the ones the driver issues, with the replies the redis
  protocol documents. A command on a key of the other type is refused with a
  \<^verbatim>\<open>ResponseError\<close> and changes nothing.

  The driver runs every transaction body on a pipeline that is watching its keys
  and never calls \<^verbatim>\<open>multi()\<close>, so each command of a body is executed at once and
  its reply is the value the body tests; a body that raises afterwards does not
  undo the commands it has already issued.
\<close>

datatype rvalue = RHash "(string \<times> string) list" | RSet "string list" | RString string

type_synonym redis = "string \<rightharpoonup> rvalue"

definition wrongtype :: exc where
  "wrongtype = RedisResponseError ''WRONGTYPE Operation against a key holding the wrong kind of value''"

definition redis_exists :: "redis \<Rightarrow> string \<Rightarrow> bool" where
  "redis_exists r k = (case r k of None \<Rightarrow> False | Some v \<Rightarrow> True)"

text \<open>
  \<^verbatim>\<open>HSET key field value\<close> sets the field, overwriting the value of a field that
  is already there, and replies 1 when the field is new and 0 when it was updated.
\<close>

definition hset :: "string \<Rightarrow> string \<Rightarrow> string \<Rightarrow> redis \<Rightarrow> exc + (nat \<times> redis)" where
  "hset k f v r =
     (case r k of
        None \<Rightarrow> Inr (1, r(k \<mapsto> RHash [(f, v)]))
      | Some (RHash h) \<Rightarrow>
          Inr (case map_of h f of None \<Rightarrow> 1 | Some old \<Rightarrow> 0, r(k \<mapsto> RHash (AList.update f v h)))
      | Some (RSet s) \<Rightarrow> Inl wrongtype
      | Some (RString v') \<Rightarrow> Inl wrongtype)"

text \<open>
  \<^verbatim>\<open>HDEL key field\<close> replies the number of fields removed; the server deletes a
  hash whose last field is removed.
\<close>

definition hdel :: "string \<Rightarrow> string \<Rightarrow> redis \<Rightarrow> exc + (nat \<times> redis)" where
  "hdel k f r =
     (case r k of
        None \<Rightarrow> Inr (0, r)
      | Some (RHash h) \<Rightarrow>
          (case map_of h f of
             None \<Rightarrow> Inr (0, r)
           | Some old \<Rightarrow>
               Inr (1, if AList.delete f h = [] then r(k := None)
                       else r(k \<mapsto> RHash (AList.delete f h))))
      | Some (RSet s) \<Rightarrow> Inl wrongtype
      | Some (RString v') \<Rightarrow> Inl wrongtype)"

definition hexists :: "redis \<Rightarrow> string \<Rightarrow> string \<Rightarrow> exc + bool" where
  "hexists r k f =
     (case r k of
        None \<Rightarrow> Inr False
      | Some (RHash h) \<Rightarrow> Inr (case map_of h f of None \<Rightarrow> False | Some v \<Rightarrow> True)
      | Some (RSet s) \<Rightarrow> Inl wrongtype
      | Some (RString v') \<Rightarrow> Inl wrongtype)"

definition hget :: "redis \<Rightarrow> string \<Rightarrow> string \<Rightarrow> exc + string option" where
  "hget r k f =
     (case r k of
        None \<Rightarrow> Inr None
      | Some (RHash h) \<Rightarrow> Inr (map_of h f)
      | Some (RSet s) \<Rightarrow> Inl wrongtype
      | Some (RString v') \<Rightarrow> Inl wrongtype)"

definition hkeys :: "redis \<Rightarrow> string \<Rightarrow> exc + string list" where
  "hkeys r k =
     (case r k of
        None \<Rightarrow> Inr []
      | Some (RHash h) \<Rightarrow> Inr (map fst h)
      | Some (RSet s) \<Rightarrow> Inl wrongtype
      | Some (RString v') \<Rightarrow> Inl wrongtype)"

definition sadd :: "string \<Rightarrow> string \<Rightarrow> redis \<Rightarrow> exc + (nat \<times> redis)" where
  "sadd k m r =
     (case r k of
        None \<Rightarrow> Inr (1, r(k \<mapsto> RSet [m]))
      | Some (RSet s) \<Rightarrow> if m \<in> set s then Inr (0, r) else Inr (1, r(k \<mapsto> RSet (s @ [m])))
      | Some (RHash h) \<Rightarrow> Inl wrongtype
      | Some (RString v') \<Rightarrow> Inl wrongtype)"

definition smembers :: "redis \<Rightarrow> string \<Rightarrow> exc + string list" where
  "smembers r k =
     (case r k of
        None \<Rightarrow> Inr []
      | Some (RSet s) \<Rightarrow> Inr s
      | Some (RHash h) \<Rightarrow> Inl wrongtype
      | Some (RString v') \<Rightarrow> Inl wrongtype)"

section \<open>The driver\<close>

text \<open>
  The attributes of \<^verbatim>\<open>RedisDriver\<close> that its group and lock operations read or
  write. The two Python sets are lists without repetition; \<open>acquired_locks\<close> holds
  the identities of the lock objects. \<open>has_client\<close> says that \<^verbatim>\<open>_client\<close> is
  not \<^verbatim>\<open>None\<close> (it is set by \<^verbatim>\<open>_start\<close> and cleared by \<^verbatim>\<open>_stop\<close>), and
  \<open>executor_running\<close> is false once the executor has been shut down
  (\<^verbatim>\<open>submit\<close> then raises \<^verbatim>\<open>RuntimeError\<close>).
\<close>

record RedisDriver =
  namespace :: string
  member_id :: string
  lock_timeout :: int
  has_client :: bool
  started :: bool
  executor_running :: bool
  acquired_locks :: "nat list"
  joined_groups :: "string list"

definition GROUP_EXISTS :: string where
  "GROUP_EXISTS = ''__created__''"

definition NAMESPACE_SEP :: string where
  "NAMESPACE_SEP = '':''"

definition group_prefix :: "RedisDriver \<Rightarrow> string" where
  "group_prefix d = namespace d @ ''_group''"

definition groups :: "RedisDriver \<Rightarrow> string" where
  "groups d = namespace d @ ''_groups''"

definition encode_group_id :: "RedisDriver \<Rightarrow> string \<Rightarrow> string" where
  "encode_group_id d group_id = group_prefix d @ NAMESPACE_SEP @ group_id"

definition encode_member_id :: "string \<Rightarrow> exc + string" where
  "encode_member_id m =
     (if m = GROUP_EXISTS then Inl (ValueError ''Not allowed to use private keys as a member id'')
      else Inr m)"

definition decode_member_id :: "string \<Rightarrow> string" where
  "decode_member_id m = m"

text \<open>
  \<^verbatim>\<open>_dumps\<close>: the msgpack encoder is a parameter \<open>pack\<close>, which gives the blob or
  the message of the \<^verbatim>\<open>PackException\<close> or \<^verbatim>\<open>ValueError\<close> it raises.
\<close>

definition dumps :: "('c \<Rightarrow> string + string) \<Rightarrow> 'c \<Rightarrow> exc + string" where
  "dumps pack data = (case pack data of Inl msg \<Rightarrow> Inl (ToozError msg) | Inr blob \<Rightarrow> Inr blob)"

text \<open>
  The driver after a successful \<^verbatim>\<open>_start\<close> and before \<^verbatim>\<open>_stop\<close>: it has its
  client and a running executor, and \<^verbatim>\<open>_started\<close> is true.
\<close>

definition ready :: "RedisDriver \<Rightarrow> bool" where
  "ready d = (has_client d \<and> started d \<and> executor_running d)"

text \<open>What an attribute of \<^verbatim>\<open>self._client\<close> raises while the client is \<^verbatim>\<open>None\<close>.\<close>

definition no_client :: exc where
  "no_client = AttributeError ''NoneType object has no attribute''"

subsection \<open>Transaction bodies\<close>

text \<open>
  The inner functions \<^verbatim>\<open>_create_group(p)\<close>, \<^verbatim>\<open>_join_group(p)\<close>, ... of the group
  operations. Each takes the driver and the key space and gives what it returns or
  raises together with the driver and the key space it leaves behind; the bodies
  that name the member take the \<^verbatim>\<open>encoded_member_id\<close> their operation computed.
\<close>

definition create_group_txn ::
  "RedisDriver \<Rightarrow> string \<Rightarrow> redis \<Rightarrow> (exc + unit) \<times> RedisDriver \<times> redis" where
  "create_group_txn d group_id r =
     (if redis_exists r (encode_group_id d group_id) then (Inl (GroupAlreadyExist group_id), d, r)
      else
        (case sadd (groups d) group_id r of
           Inl e \<Rightarrow> (Inl e, d, r)
         | Inr (c1, r1) \<Rightarrow>
             (case hset (encode_group_id d group_id) GROUP_EXISTS ''1'' r1 of
                Inl e \<Rightarrow> (Inl e, d, r1)
              | Inr (c2, r2) \<Rightarrow> (Inr (), d, r2))))"

definition update_capabilities_txn ::
  "('c \<Rightarrow> string + string) \<Rightarrow> RedisDriver \<Rightarrow> string \<Rightarrow> string \<Rightarrow> 'c \<Rightarrow> redis
     \<Rightarrow> (exc + unit) \<times> RedisDriver \<times> redis" where
  "update_capabilities_txn pack d group_id encoded_member_id capabilities r =
     (if \<not> redis_exists r (encode_group_id d group_id) then (Inl (GroupNotCreated group_id), d, r)
      else
        (case hexists r (encode_group_id d group_id) encoded_member_id of
           Inl e \<Rightarrow> (Inl e, d, r)
         | Inr present \<Rightarrow>
             if \<not> present then (Inl (MemberNotJoined group_id (member_id d)), d, r)
             else
               (case dumps pack capabilities of
                  Inl e \<Rightarrow> (Inl e, d, r)
                | Inr blob \<Rightarrow>
                    (case hset (encode_group_id d group_id) encoded_member_id blob r of
                       Inl e \<Rightarrow> (Inl e, d, r)
                     | Inr (c, r1) \<Rightarrow> (Inr (), d, r1)))))"

definition leave_group_txn ::
  "RedisDriver \<Rightarrow> string \<Rightarrow> string \<Rightarrow> redis \<Rightarrow> (exc + unit) \<times> RedisDriver \<times> redis" where
  "leave_group_txn d group_id encoded_member_id r =
     (if \<not> redis_exists r (encode_group_id d group_id) then (Inl (GroupNotCreated group_id), d, r)
      else
        (case hdel (encode_group_id d group_id) encoded_member_id r of
           Inl e \<Rightarrow> (Inl e, d, r)
         | Inr (c, r1) \<Rightarrow>
             if c = 0 then (Inl (MemberNotJoined group_id (member_id d)), d, r1)
             else (Inr (), d\<lparr>joined_groups := removeAll group_id (joined_groups d)\<rparr>, r1)))"

definition get_members_txn ::
  "RedisDriver \<Rightarrow> string \<Rightarrow> redis \<Rightarrow> (exc + string list) \<times> RedisDriver \<times> redis" where
  "get_members_txn d group_id r =
     (if \<not> redis_exists r (encode_group_id d group_id) then (Inl (GroupNotCreated group_id), d, r)
      else
        (case hkeys r (encode_group_id d group_id) of
           Inl e \<Rightarrow> (Inl e, d, r)
         | Inr ks \<Rightarrow> (Inr (map decode_member_id (filter (\<lambda>m. m \<noteq> GROUP_EXISTS) ks)), d, r)))"

definition join_group_txn ::
  "('c \<Rightarrow> string + string) \<Rightarrow> RedisDriver \<Rightarrow> string \<Rightarrow> string \<Rightarrow> 'c \<Rightarrow> redis
     \<Rightarrow> (exc + unit) \<times> RedisDriver \<times> redis" where
  "join_group_txn pack d group_id encoded_member_id capabilities r =
     (if \<not> redis_exists r (encode_group_id d group_id) then (Inl (GroupNotCreated group_id), d, r)
      else
        (case dumps pack capabilities of
           Inl e \<Rightarrow> (Inl e, d, r)
         | Inr blob \<Rightarrow>
             (case hset (encode_group_id d group_id) encoded_member_id blob r of
                Inl e \<Rightarrow> (Inl e, d, r)
              | Inr (c, r1) \<Rightarrow>
                  if c = 0 then (Inl (MemberAlreadyExist group_id (member_id d)), d, r1)
                  else (Inr (), d\<lparr>joined_groups := List.insert group_id (joined_groups d)\<rparr>, r1))))"

definition get_groups_work ::
  "RedisDriver \<Rightarrow> redis \<Rightarrow> (exc + string list) \<times> RedisDriver \<times> redis" where
  "get_groups_work d r =
     (if \<not> has_client d then (Inl no_client, d, r)
      else
        (case smembers r (groups d) of
           Inl e \<Rightarrow> (Inl e, d, r)
         | Inr gs \<Rightarrow> (Inr gs, d, r)))"

section \<open>Asynchronous results\<close>

text \<open>
  The future that \<^verbatim>\<open>ThreadPoolExecutor.submit\<close> returns, as the caller of
  \<^verbatim>\<open>result\<close> sees it: \<open>Completes t out\<close> is a unit of work that is complete \<open>t\<close>
  seconds after the caller starts to wait (0 when it is complete already) and then
  returns or raises \<open>out\<close>; \<open>Never\<close> is work that does not complete. Time is a
  logical clock in seconds.

  \<open>fut_result\<close> is \<^verbatim>\<open>Future.result(timeout)\<close> as the library documents it: the
  time the caller waited and what it got, or \<open>None\<close> when the call blocks for ever.
\<close>

datatype 'a future = Never | Completes real "exc + 'a"

definition fut_result :: "real option \<Rightarrow> 'a future \<Rightarrow> (real \<times> (exc + 'a)) option" where
  "fut_result timeout fut =
     (case timeout of
        None \<Rightarrow> (case fut of Never \<Rightarrow> None | Completes t out \<Rightarrow> Some (t, out))
      | Some limit \<Rightarrow>
          (case fut of
             Never \<Rightarrow> Some (max 0 limit, Inl (FuturesTimeoutError []))
           | Completes t out \<Rightarrow>
               if t \<le> max 0 limit then Some (t, out)
               else Some (max 0 limit, Inl (FuturesTimeoutError []))))"

text \<open>
  \<^verbatim>\<open>RedisFutureResult.get\<close>: the failure translation wraps the call of
  \<^verbatim>\<open>result\<close>, and the handler of \<^verbatim>\<open>futures.TimeoutError\<close> wraps both.
\<close>

definition late_translate :: "exc \<Rightarrow> exc" where
  "late_translate e =
     (case translate_failures e of FuturesTimeoutError m \<Rightarrow> OperationTimedOut m | e' \<Rightarrow> e')"

definition get :: "real option \<Rightarrow> 'a future \<Rightarrow> (real \<times> (exc + 'a)) option" where
  "get timeout fut =
     (case fut_result timeout fut of
        None \<Rightarrow> None
      | Some (waited, out) \<Rightarrow>
          Some (waited, case out of Inl e \<Rightarrow> Inl (late_translate e) | Inr v \<Rightarrow> Inr v))"

text \<open>\<^verbatim>\<open>get()\<close> with no argument: the default of the parameter is \<^verbatim>\<open>timeout=10\<close>.\<close>

definition get_default :: "'a future \<Rightarrow> (real \<times> (exc + 'a)) option" where
  "get_default fut = get (Some 10) fut"

text \<open>
  \<^verbatim>\<open>_submit\<close>: refused when the driver is not started or the executor has been
  shut down; otherwise the work is queued and the future is returned at once. The
  single worker runs the work later: \<open>dur\<close> says when it is complete (\<open>None\<close>:
  never, and then the work is taken not to reach the server).
\<close>

definition submit ::
  "RedisDriver \<Rightarrow> real option \<Rightarrow> (RedisDriver \<Rightarrow> redis \<Rightarrow> (exc + 'a) \<times> RedisDriver \<times> redis)
     \<Rightarrow> redis \<Rightarrow> (exc + 'a future) \<times> RedisDriver \<times> redis" where
  "submit d dur cb r =
     (if \<not> started d then (Inl (ToozError ''Redis driver has not been started''), d, r)
      else if \<not> executor_running d then
        (Inl (ToozError ''Redis driver asynchronous executor has been shutdown''), d, r)
      else
        (case dur of
           None \<Rightarrow> (Inr Never, d, r)
         | Some t \<Rightarrow> (case cb d r of (out, d', r') \<Rightarrow> (Inr (Completes t out), d', r'))))"

text \<open>
  \<^verbatim>\<open>client.transaction(func, *watches, value_from_callable=True)\<close> watches the
  keys, calls \<open>func\<close> on the pipeline, executes the (empty) command buffer and
  returns what \<open>func\<close> returned. It retries on a \<^verbatim>\<open>WatchError\<close>, which needs a
  second client writing a watched key in between and does not occur here.
\<close>

definition transaction :: "(redis \<Rightarrow> 'x) \<Rightarrow> redis \<Rightarrow> 'x" where
  "transaction func r = func r"

subsection \<open>Group operations\<close>

text \<open>
  Each operation computes its keys (the member id may be refused), takes the bound
  method \<^verbatim>\<open>self._client.transaction\<close>, which raises while there is no client,
  and submits the transaction.
\<close>

definition create_group ::
  "RedisDriver \<Rightarrow> real option \<Rightarrow> string \<Rightarrow> redis \<Rightarrow> (exc + unit future) \<times> RedisDriver \<times> redis" where
  "create_group d dur group_id r =
     (if \<not> has_client d then (Inl no_client, d, r)
      else submit d dur (\<lambda>d'. transaction (create_group_txn d' group_id)) r)"

definition update_capabilities ::
  "('c \<Rightarrow> string + string) \<Rightarrow> RedisDriver \<Rightarrow> real option \<Rightarrow> string \<Rightarrow> 'c \<Rightarrow> redis
     \<Rightarrow> (exc + unit future) \<times> RedisDriver \<times> redis" where
  "update_capabilities pack d dur group_id capabilities r =
     (case encode_member_id (member_id d) of
        Inl e \<Rightarrow> (Inl e, d, r)
      | Inr encoded_member_id \<Rightarrow>
          if \<not> has_client d then (Inl no_client, d, r)
          else
            submit d dur
              (\<lambda>d'. transaction
                 (update_capabilities_txn pack d' group_id encoded_member_id capabilities)) r)"

definition leave_group ::
  "RedisDriver \<Rightarrow> real option \<Rightarrow> string \<Rightarrow> redis \<Rightarrow> (exc + unit future) \<times> RedisDriver \<times> redis" where
  "leave_group d dur group_id r =
     (case encode_member_id (member_id d) of
        Inl e \<Rightarrow> (Inl e, d, r)
      | Inr encoded_member_id \<Rightarrow>
          if \<not> has_client d then (Inl no_client, d, r)
          else submit d dur (\<lambda>d'. transaction (leave_group_txn d' group_id encoded_member_id)) r)"

definition get_members ::
  "RedisDriver \<Rightarrow> real option \<Rightarrow> string \<Rightarrow> redis
     \<Rightarrow> (exc + string list future) \<times> RedisDriver \<times> redis" where
  "get_members d dur group_id r =
     (if \<not> has_client d then (Inl no_client, d, r)
      else submit d dur (\<lambda>d'. transaction (get_members_txn d' group_id)) r)"

definition join_group ::
  "('c \<Rightarrow> string + string) \<Rightarrow> RedisDriver \<Rightarrow> real option \<Rightarrow> string \<Rightarrow> 'c \<Rightarrow> redis
     \<Rightarrow> (exc + unit future) \<times> RedisDriver \<times> redis" where
  "join_group pack d dur group_id capabilities r =
     (case encode_member_id (member_id d) of
        Inl e \<Rightarrow> (Inl e, d, r)
      | Inr encoded_member_id \<Rightarrow>
          if \<not> has_client d then (Inl no_client, d, r)
          else
            submit d dur
              (\<lambda>d'. transaction (join_group_txn pack d' group_id encoded_member_id capabilities)) r)"

definition get_groups ::
  "RedisDriver \<Rightarrow> real option \<Rightarrow> redis \<Rightarrow> (exc + string list future) \<times> RedisDriver \<times> redis" where
  "get_groups d dur r = submit d dur get_groups_work r"

text \<open>
  \<open>call_get timeout x\<close> is what the caller of \<^verbatim>\<open>op(...).get(timeout)\<close> gets, where
  \<open>x\<close> is what \<^verbatim>\<open>op(...)\<close> returned or raised: the exception of the call itself,
  or the outcome of \<^verbatim>\<open>get\<close>; \<open>None\<close> when \<^verbatim>\<open>get\<close> blocks for ever.
\<close>

definition call_get :: "real option \<Rightarrow> (exc + 'a future) \<Rightarrow> (exc + 'a) option" where
  "call_get timeout x =
     (case x of
        Inl e \<Rightarrow> Some (Inl e)
      | Inr fut \<Rightarrow> (case get timeout fut of None \<Rightarrow> None | Some (waited, out) \<Rightarrow> Some out))"

text \<open>A wait of \<open>t\<close> seconds fits in the timeout (\<open>None\<close>: no limit).\<close>

definition in_time :: "real option \<Rightarrow> real \<Rightarrow> bool" where
  "in_time timeout t = (case timeout of None \<Rightarrow> True | Some limit \<Rightarrow> t \<le> max 0 limit)"

section \<open>Well-formed key spaces\<close>

text \<open>
  What the group operations of the drivers of one namespace keep true of the key
  space, starting from the empty one: a group key holds a hash with the existence
  sentinel among its fields, the registry key holds a set, every registered group
  has its hash, and no field or member is listed twice.
\<close>

definition group_hash_ok :: "rvalue \<Rightarrow> bool" where
  "group_hash_ok v =
     (case v of
        RHash h \<Rightarrow> distinct (map fst h) \<and> GROUP_EXISTS \<in> fst ` set h
      | RSet s \<Rightarrow> False
      | RString v' \<Rightarrow> False)"

definition registry_ok :: "RedisDriver \<Rightarrow> redis \<Rightarrow> bool" where
  "registry_ok d r =
     (case r (groups d) of
        None \<Rightarrow> True
      | Some (RSet s) \<Rightarrow> distinct s \<and> (\<forall>g \<in> set s. redis_exists r (encode_group_id d g))
      | Some (RHash h) \<Rightarrow> False
      | Some (RString v') \<Rightarrow> False)"

definition redis_ok :: "RedisDriver \<Rightarrow> redis \<Rightarrow> bool" where
  "redis_ok d r =
     ((\<forall>g. case r (encode_group_id d g) of None \<Rightarrow> True | Some v \<Rightarrow> group_hash_ok v)
      \<and> registry_ok d r)"

text \<open>
  The part of this that \<^verbatim>\<open>create_group\<close> and \<^verbatim>\<open>get_groups\<close> rest on: the
  registry key holds a set, or nothing yet. No group key and no lock name of the
  namespace is the registry key (lemmas \<open>groups_ne_group_key\<close> and
  \<open>lock_name_ne_groups\<close>).
\<close>

definition registry_set_ok :: "RedisDriver \<Rightarrow> redis \<Rightarrow> bool" where
  "registry_set_ok d r =
     (case r (groups d) of
        None \<Rightarrow> True
      | Some (RSet s) \<Rightarrow> distinct s
      | Some (RHash h) \<Rightarrow> False
      | Some (RString v') \<Rightarrow> False)"

text \<open>The existence sentinel of a group is present in the key space.\<close>

definition group_created :: "RedisDriver \<Rightarrow> redis \<Rightarrow> string \<Rightarrow> bool" where
  "group_created d r group_id = (hexists r (encode_group_id d group_id) GROUP_EXISTS = Inr True)"

section \<open>Reading the key space\<close>

text \<open>
  The members of the registry set and the fields of the hash of a group, as the
  key space holds them (both empty when the key is absent).
\<close>

definition registry :: "RedisDriver \<Rightarrow> redis \<Rightarrow> string list" where
  "registry d r = (case r (groups d) of
        Some (RSet s) \<Rightarrow> s | Some (RHash h) \<Rightarrow> [] | Some (RString v) \<Rightarrow> [] | None \<Rightarrow> [])"

definition group_fields :: "RedisDriver \<Rightarrow> redis \<Rightarrow> string \<Rightarrow> string list" where
  "group_fields d r g =
     (case r (encode_group_id d g) of
        Some (RHash h) \<Rightarrow> map fst h | Some (RSet s) \<Rightarrow> [] | Some (RString v) \<Rightarrow> [] | None \<Rightarrow> [])"

section \<open>Scenarios\<close>

text \<open>
  A started driver with the default namespace, used for the concrete runs below.
\<close>

definition demo_driver :: RedisDriver where
  "demo_driver = \<lparr>namespace = ''_tooz'', member_id = ''m1'', lock_timeout = 30, has_client = True,
     started = True,
     executor_running = True, acquired_locks = [], joined_groups = []\<rparr>"

text \<open>
  A key space in which the group \<open>h\<close> exists and has the member \<open>m2\<close>.
\<close>

definition demo_redis :: redis where
  "demo_redis = [''_tooz_groups'' \<mapsto> RSet [''h''],
                 ''_tooz_group:h'' \<mapsto> RHash [(''__created__'', ''1''), (''m2'', ''x'')]]"

text \<open>
  The key space while the lock \<^verbatim>\<open>get_lock('group:x')\<close> of the demo driver is held:
  the lock of the redis client keeps its token in a string under the name of the
  lock, \<^verbatim>\<open>_tooz_group:x_lock\<close>, which is also the key of the group \<open>x_lock\<close>.
\<close>

definition demo_collide :: redis where
  "demo_collide = [''_tooz_group:x_lock'' \<mapsto> RString ''token'']"

text \<open>A key space in which the key of the group \<open>g\<close> holds a set.\<close>

definition demo_wrong :: redis where
  "demo_wrong = [''_tooz_group:g'' \<mapsto> RSet [''x'']]"

text \<open>
  A sequence of \<^verbatim>\<open>create_group(g).get(timeout=None)\<close> calls, one per element of
  the list (the time the worker needs for it); it collects what each call gave.
\<close>

fun create_group_attempts ::
  "RedisDriver \<Rightarrow> real option list \<Rightarrow> string \<Rightarrow> redis
     \<Rightarrow> (exc + unit) option list \<times> RedisDriver \<times> redis" where
  "create_group_attempts d [] g r = ([], d, r)"
| "create_group_attempts d (dur # durs) g r =
     (case create_group d dur g r of
        (x, d1, r1) \<Rightarrow>
          (case create_group_attempts d1 durs g r1 of
             (outs, d2, r2) \<Rightarrow> (call_get None x # outs, d2, r2)))"

section \<open>Locks\<close>

text \<open>
  The lock of the redis client (\<^verbatim>\<open>client.lock(name, timeout=timeout)\<close>) and the
  server behind it are the environment of a \<^verbatim>\<open>RedisLock\<close>: what a native call
  gives is a parameter of the method that makes it, \<open>Returns v\<close> or \<open>Raises e\<close>,
  and every native call that is made is appended to \<open>native_calls\<close>, so that a
  method that returns without contacting the store is one that appends nothing.
\<close>

datatype 'a reply = Returns 'a | Raises exc

datatype native_call =
    LockAcquire string bool "real option"
  | LockRelease string
  | LockExtend string int
  | Ping

text \<open>The \<^verbatim>\<open>blocking\<close> argument of \<^verbatim>\<open>acquire\<close>: \<^verbatim>\<open>True\<close>, \<^verbatim>\<open>False\<close> or a number of seconds.\<close>

datatype blocking_arg = Bool bool | Seconds real

text \<open>
  The attributes of a \<^verbatim>\<open>RedisLock\<close>: \<^verbatim>\<open>_name\<close>, the timeout of its native lock
  and \<^verbatim>\<open>_acquired\<close>. All lock objects share the driver \<^verbatim>\<open>_coord\<close>, whose
  \<^verbatim>\<open>_acquired_locks\<close> holds lock objects; objects are addressed by number in
  \<open>lock_objs\<close>, and \<open>acquired_locks\<close> of the driver holds such numbers.
\<close>

record RedisLock =
  lock_name :: string
  lease :: int
  acquired :: bool

record lock_world =
  coord :: RedisDriver
  lock_objs :: "nat \<Rightarrow> RedisLock"
  native_calls :: "native_call list"

text \<open>
  \<^verbatim>\<open>RedisLock.__init__\<close>, and \<^verbatim>\<open>get_lock(name)\<close> with the new object stored at
  the address \<open>l\<close>; \<^verbatim>\<open>self._client.lock\<close> raises while there is no client.
\<close>

definition new_lock :: "RedisDriver \<Rightarrow> string \<Rightarrow> RedisLock" where
  "new_lock c nm =
     \<lparr>lock_name = namespace c @ ''_'' @ nm @ ''_lock'', lease = lock_timeout c, acquired = False\<rparr>"

definition get_lock :: "nat \<Rightarrow> string \<Rightarrow> lock_world \<Rightarrow> exc + lock_world" where
  "get_lock l nm w =
     (if \<not> has_client (coord w) then Inl no_client
      else Inr (w\<lparr>lock_objs := (lock_objs w)(l := new_lock (coord w) nm)\<rparr>))"

definition acquire ::
  "nat \<Rightarrow> blocking_arg \<Rightarrow> bool reply \<Rightarrow> lock_world \<Rightarrow> (exc + bool) \<times> lock_world" where
  "acquire l blocking rep w =
     (let w1 = w\<lparr>native_calls := native_calls w @
                  [case blocking of
                     Bool b \<Rightarrow> LockAcquire (lock_name (lock_objs w l)) b None
                   | Seconds s \<Rightarrow> LockAcquire (lock_name (lock_objs w l)) True (Some s)]\<rparr>
      in case rep of
           Raises e \<Rightarrow> (Inl (translate_failures e), w1)
         | Returns b \<Rightarrow>
             (Inr b,
              w1\<lparr>lock_objs := (lock_objs w1)(l := (lock_objs w1 l)\<lparr>acquired := b\<rparr>),
                 coord := if b then (coord w1)\<lparr>acquired_locks := List.insert l (acquired_locks (coord w1))\<rparr>
                          else coord w1\<rparr>))"

definition release :: "nat \<Rightarrow> unit reply \<Rightarrow> lock_world \<Rightarrow> (exc + bool) \<times> lock_world" where
  "release l rep w =
     (if \<not> acquired (lock_objs w l) then (Inr False, w)
      else
        (let w1 = w\<lparr>native_calls := native_calls w @ [LockRelease (lock_name (lock_objs w l))]\<rparr>
         in case rep of
              Raises e \<Rightarrow> if is_LockError e then (Inr False, w1) else (Inl (translate_failures e), w1)
            | Returns u \<Rightarrow>
                (Inr True,
                 w1\<lparr>coord := (coord w1)\<lparr>acquired_locks := removeAll l (acquired_locks (coord w1))\<rparr>,
                    lock_objs := (lock_objs w1)(l := (lock_objs w1 l)\<lparr>acquired := False\<rparr>)\<rparr>)))"

definition lock_heartbeat :: "nat \<Rightarrow> unit reply \<Rightarrow> lock_world \<Rightarrow> (exc + unit) \<times> lock_world" where
  "lock_heartbeat l rep w =
     (if acquired (lock_objs w l) then
        (let w1 = w\<lparr>native_calls := native_calls w @
                     [LockExtend (lock_name (lock_objs w l)) (lease (lock_objs w l))]\<rparr>
         in case rep of
              Raises e \<Rightarrow> (Inl (translate_failures e), w1)
            | Returns u \<Rightarrow> (Inr (), w1))
      else (Inr (), w))"

text \<open>
  \<^verbatim>\<open>RedisDriver.heartbeat\<close>: the ping, then the heartbeat of every lock of
  \<^verbatim>\<open>_acquired_locks\<close>; a \<^verbatim>\<open>ToozError\<close> of one lock is logged and the loop goes on.
  \<open>reps l\<close> is what the native \<^verbatim>\<open>extend\<close> of the lock \<open>l\<close> gives.
\<close>

fun heartbeat_locks ::
  "nat list \<Rightarrow> (nat \<Rightarrow> unit reply) \<Rightarrow> lock_world \<Rightarrow> (exc + unit) \<times> lock_world" where
  "heartbeat_locks [] reps w = (Inr (), w)"
| "heartbeat_locks (l # ls) reps w =
     (case lock_heartbeat l (reps l) w of
        (Inl e, w1) \<Rightarrow> if is_ToozError e then heartbeat_locks ls reps w1 else (Inl e, w1)
      | (Inr u, w1) \<Rightarrow> heartbeat_locks ls reps w1)"

definition heartbeat ::
  "unit reply \<Rightarrow> (nat \<Rightarrow> unit reply) \<Rightarrow> lock_world \<Rightarrow> (exc + unit) \<times> lock_world" where
  "heartbeat ping reps w =
     (let w1 = w\<lparr>native_calls := native_calls w @ [Ping]\<rparr>
      in case ping of
           Raises e \<Rightarrow> (Inl (translate_failures e), w1)
         | Returns u \<Rightarrow> heartbeat_locks (acquired_locks (coord w1)) reps w1)"

text \<open>
  A sequence of calls on the locks of one driver, each with what its native call
  gives (if it makes one), and the world the sequence leaves.
\<close>

datatype lock_call =
    Acquire nat blocking_arg "bool reply"
  | Release nat "unit reply"
  | Heartbeat nat "unit reply"
  | DriverHeartbeat "unit reply" "nat \<Rightarrow> unit reply"

fun lock_step :: "lock_call \<Rightarrow> lock_world \<Rightarrow> lock_world" where
  "lock_step (Acquire l blocking rep) w = snd (acquire l blocking rep w)"
| "lock_step (Release l rep) w = snd (release l rep w)"
| "lock_step (Heartbeat l rep) w = snd (lock_heartbeat l rep w)"
| "lock_step (DriverHeartbeat ping reps) w = snd (heartbeat ping reps w)"

definition lock_run :: "lock_call list \<Rightarrow> lock_world \<Rightarrow> lock_world" where
  "lock_run calls w = fold lock_step calls w"

text \<open>
  The demo driver with lock objects as \<^verbatim>\<open>get_lock('res')\<close> makes them, none
  acquired yet, and no native call made.
\<close>

definition demo_locks :: lock_world where
  "demo_locks =
     \<lparr>coord = demo_driver, lock_objs = (\<lambda>l. new_lock demo_driver ''res''), native_calls = []\<rparr>"

text \<open>The same after \<^verbatim>\<open>acquire()\<close> on the lock succeeded.\<close>

definition demo_held :: lock_world where
  "demo_held = lock_run [Acquire 0 (Bool True) (Returns True)] demo_locks"

text \<open>Every lock whose held flag is true is in the held-lock set of the driver.\<close>

definition held_flag_member :: "lock_world \<Rightarrow> bool" where
  "held_flag_member w = (\<forall>l. acquired (lock_objs w l) \<longrightarrow> l \<in> set (acquired_locks (coord w)))"

section \<open>Watchers\<close>

datatype event = MemberJoinedGroup string string | MemberLeftGroup string string

text \<open>
  Modelled from the spec: the attributes that \<^verbatim>\<open>RedisDriver\<close> inherits from
  \<^verbatim>\<open>coordination.CoordinationDriver\<close>, whose file is not among the sources: the
  callbacks registered per group for joins and for leaves, and the last observed
  membership per group (created on first use, so a group without a snapshot reads
  as the empty set). A callback is a function of the event; \<open>hooks_run\<close> calls every
  callback of a list with the event and gives the list of what they return.
\<close>

record 'r CoordinationDriver =
  hooks_join_group :: "string \<Rightarrow> (event \<Rightarrow> 'r) list"
  hooks_leave_group :: "string \<Rightarrow> (event \<Rightarrow> 'r) list"
  group_members :: "string \<rightharpoonup> string list"

definition hooks_run :: "(event \<Rightarrow> 'r) list \<Rightarrow> event \<Rightarrow> 'r list" where
  "hooks_run hooks ev = map (\<lambda>cb. cb ev) hooks"

text \<open>
  Python sets are lists without repetition, in some order: \<open>py_set\<close> is
  \<^verbatim>\<open>set(xs)\<close>, \<open>set_minus\<close> is \<^verbatim>\<open>a - b\<close> and \<open>set_update\<close> is \<^verbatim>\<open>s.update(xs)\<close>.
\<close>

definition py_set :: "'a list \<Rightarrow> 'a list" where
  "py_set xs = remdups xs"

definition set_minus :: "'a list \<Rightarrow> 'a list \<Rightarrow> 'a list" where
  "set_minus a b = remdups (filter (\<lambda>x. x \<notin> set b) a)"

definition set_update :: "'a list \<Rightarrow> 'a list \<Rightarrow> 'a list" where
  "set_update s xs = remdups (s @ xs)"

text \<open>\<^verbatim>\<open>self._group_members.get(group_id, set())\<close>, and \<^verbatim>\<open>self._group_members[group_id]\<close>.\<close>

definition previous_members :: "'r CoordinationDriver \<Rightarrow> string \<Rightarrow> string list" where
  "previous_members c group_id = (case group_members c group_id of None \<Rightarrow> [] | Some s \<Rightarrow> s)"

text \<open>
  \<^verbatim>\<open>_init_watch_group\<close>. \<^verbatim>\<open>get_members\<close> may raise at once; then
  \<^verbatim>\<open>self._group_members[group_id]\<close> is evaluated (which creates the snapshot if
  there is none) before \<^verbatim>\<open>get(timeout=None)\<close> is called, which may raise, or
  block for ever when the work never completes. \<^verbatim>\<open>get_members\<close> changes neither
  the driver nor the key space (lemma \<open>get_members_reads\<close>), so these are not
  threaded.
\<close>

definition init_watch_group ::
  "RedisDriver \<Rightarrow> real option \<Rightarrow> string \<Rightarrow> redis \<Rightarrow> 'r CoordinationDriver
     \<Rightarrow> ((exc + unit) \<times> 'r CoordinationDriver) option" where
  "init_watch_group d dur group_id r c =
     (case fst (get_members d dur group_id r) of
        Inl e \<Rightarrow> Some (Inl e, c)
      | Inr members \<Rightarrow>
          (case get None members of
             None \<Rightarrow> None
           | Some (waited, Inl e) \<Rightarrow>
               Some (Inl e,
                     c\<lparr>group_members := (group_members c)
                          (group_id \<mapsto> previous_members c group_id)\<rparr>)
           | Some (waited, Inr ms) \<Rightarrow>
               Some (Inr (),
                     c\<lparr>group_members := (group_members c)
                          (group_id \<mapsto> set_update (previous_members c group_id) ms)\<rparr>)))"

text \<open>
  Modelled from the spec: \<^verbatim>\<open>watch_join_group\<close> and \<^verbatim>\<open>watch_leave_group\<close> of the
  base class, which register the callback for the group.
\<close>

definition super_watch_join_group ::
  "string \<Rightarrow> (event \<Rightarrow> 'r) \<Rightarrow> 'r CoordinationDriver \<Rightarrow> 'r CoordinationDriver" where
  "super_watch_join_group group_id callback c =
     c\<lparr>hooks_join_group := (hooks_join_group c)(group_id := hooks_join_group c group_id @ [callback])\<rparr>"

definition super_watch_leave_group ::
  "string \<Rightarrow> (event \<Rightarrow> 'r) \<Rightarrow> 'r CoordinationDriver \<Rightarrow> 'r CoordinationDriver" where
  "super_watch_leave_group group_id callback c =
     c\<lparr>hooks_leave_group := (hooks_leave_group c)(group_id := hooks_leave_group c group_id @ [callback])\<rparr>"

definition watch_join_group ::
  "RedisDriver \<Rightarrow> real option \<Rightarrow> string \<Rightarrow> (event \<Rightarrow> 'r) \<Rightarrow> redis \<Rightarrow> 'r CoordinationDriver
     \<Rightarrow> ((exc + unit) \<times> 'r CoordinationDriver) option" where
  "watch_join_group d dur group_id callback r c =
     (case init_watch_group d dur group_id r c of
        None \<Rightarrow> None
      | Some (Inl e, c1) \<Rightarrow> Some (Inl e, c1)
      | Some (Inr u, c1) \<Rightarrow> Some (Inr (), super_watch_join_group group_id callback c1))"

definition watch_leave_group ::
  "RedisDriver \<Rightarrow> real option \<Rightarrow> string \<Rightarrow> (event \<Rightarrow> 'r) \<Rightarrow> redis \<Rightarrow> 'r CoordinationDriver
     \<Rightarrow> ((exc + unit) \<times> 'r CoordinationDriver) option" where
  "watch_leave_group d dur group_id callback r c =
     (case init_watch_group d dur group_id r c of
        None \<Rightarrow> None
      | Some (Inl e, c1) \<Rightarrow> Some (Inl e, c1)
      | Some (Inr u, c1) \<Rightarrow> Some (Inr (), super_watch_leave_group group_id callback c1))"

text \<open>
  \<^verbatim>\<open>run_watchers(timeout)\<close>: \<open>watch_group\<close> is the body of its loop for one group,
  \<open>watch_groups\<close> the loop. An exception ends the loop and keeps the snapshots
  already replaced; \<open>None\<close> is a \<^verbatim>\<open>get\<close> that blocks for ever.
\<close>

definition watch_group ::
  "RedisDriver \<Rightarrow> real option \<Rightarrow> real option \<Rightarrow> redis \<Rightarrow> string \<Rightarrow> 'r list
     \<Rightarrow> 'r CoordinationDriver \<Rightarrow> ((exc + 'r list) \<times> 'r CoordinationDriver) option" where
  "watch_group d dur timeout r group_id result c =
     (case call_get timeout (fst (get_members d dur group_id r)) of
        None \<Rightarrow> None
      | Some (Inl e) \<Rightarrow> Some (Inl e, c)
      | Some (Inr members) \<Rightarrow>
          Some (Inr (result
                  @ concat (map (\<lambda>member_id.
                        hooks_run (hooks_join_group c group_id) (MemberJoinedGroup group_id member_id))
                      (set_minus (py_set members) (previous_members c group_id)))
                  @ concat (map (\<lambda>member_id.
                        hooks_run (hooks_leave_group c group_id) (MemberLeftGroup group_id member_id))
                      (set_minus (previous_members c group_id) (py_set members)))),
                c\<lparr>group_members := (group_members c)(group_id \<mapsto> py_set members)\<rparr>))"

fun watch_groups ::
  "RedisDriver \<Rightarrow> real option \<Rightarrow> real option \<Rightarrow> redis \<Rightarrow> string list \<Rightarrow> 'r list
     \<Rightarrow> 'r CoordinationDriver \<Rightarrow> ((exc + 'r list) \<times> 'r CoordinationDriver) option" where
  "watch_groups d dur timeout r [] result c = Some (Inr result, c)"
| "watch_groups d dur timeout r (group_id # gs) result c =
     (case watch_group d dur timeout r group_id result c of
        None \<Rightarrow> None
      | Some (Inl e, c1) \<Rightarrow> Some (Inl e, c1)
      | Some (Inr result1, c1) \<Rightarrow> watch_groups d dur timeout r gs result1 c1)"

definition run_watchers ::
  "RedisDriver \<Rightarrow> real option \<Rightarrow> real option \<Rightarrow> redis \<Rightarrow> 'r CoordinationDriver
     \<Rightarrow> ((exc + 'r list) \<times> 'r CoordinationDriver) option" where
  "run_watchers d dur timeout r c =
     (case call_get timeout (fst (get_groups d dur r)) of
        None \<Rightarrow> None
      | Some (Inl e) \<Rightarrow> Some (Inl e, c)
      | Some (Inr gs) \<Rightarrow> watch_groups d dur timeout r gs [] c)"

subsection \<open>What a poll is to do\<close>

text \<open>
  The member ids of a group as the key space has them, and, in the words of the
  spec, the callback results of one group: every join callback of the group
  called with one event for each id of \<open>joined = current - previous\<close>, then every
  leave callback with one event for each id of \<open>left = previous - current\<close>.
\<close>

definition current_members :: "RedisDriver \<Rightarrow> redis \<Rightarrow> string \<Rightarrow> string list" where
  "current_members d r g = filter (\<lambda>m. m \<noteq> GROUP_EXISTS) (group_fields d r g)"

definition group_events :: "'r CoordinationDriver \<Rightarrow> string \<Rightarrow> string list \<Rightarrow> 'r list" where
  "group_events c g current =
     concat (map (\<lambda>m. map (\<lambda>cb. cb (MemberJoinedGroup g m)) (hooks_join_group c g))
               (set_minus (py_set current) (previous_members c g)))
     @ concat (map (\<lambda>m. map (\<lambda>cb. cb (MemberLeftGroup g m)) (hooks_leave_group c g))
               (set_minus (previous_members c g) (py_set current)))"

text \<open>A driver base state with no callback and no snapshot.\<close>

definition no_watchers :: "'r CoordinationDriver" where
  "no_watchers = \<lparr>hooks_join_group = (\<lambda>g. []), hooks_leave_group = (\<lambda>g. []),
                  group_members = Map.empty\<rparr>"

text \<open>
  A driver base state that watches the group \<open>h\<close> for joins and for leaves with
  callbacks that return their event, and whose snapshot of \<open>h\<close> is the member
  \<open>m0\<close>.
\<close>

definition demo_watchers :: "event CoordinationDriver" where
  "demo_watchers =
     \<lparr>hooks_join_group = (\<lambda>g. if g = ''h'' then [\<lambda>ev. ev] else []),
      hooks_leave_group = (\<lambda>g. if g = ''h'' then [\<lambda>ev. ev] else []),
      group_members = [''h'' \<mapsto> [''m0'']]\<rparr>"

text \<open>
  The key spaces of the run \<^verbatim>\<open>create_group('g')\<close>, \<^verbatim>\<open>join_group('g', 'caps')\<close>,
  \<^verbatim>\<open>leave_group('g')\<close> of the demo driver from the empty key space (the
  joined-groups set of the driver plays no part in them), a callback that returns
  its event, and the base states the runs of the watchers go through.
\<close>

definition demo_created :: redis where
  "demo_created = snd (snd (create_group demo_driver (Some 0) ''g'' Map.empty))"

definition demo_joined :: redis where
  "demo_joined = snd (snd (join_group Inr demo_driver (Some 0) ''g'' ''caps'' demo_created))"

definition demo_left :: redis where
  "demo_left = snd (snd (leave_group demo_driver (Some 0) ''g'' demo_joined))"

definition report :: "event \<Rightarrow> event" where
  "report ev = ev"

definition polled :: "event CoordinationDriver" where
  "polled = \<lparr>hooks_join_group = (\<lambda>g. []), hooks_leave_group = (\<lambda>g. []),
             group_members = [''g'' \<mapsto> [''m1'']]\<rparr>"

definition polled_watching :: "event CoordinationDriver" where
  "polled_watching = \<lparr>hooks_join_group = (\<lambda>g. []), hooks_leave_group = (\<lambda>g. [])(''g'' := [report]),
             group_members = [''g'' \<mapsto> [''m1'']]\<rparr>"

definition watching :: "event CoordinationDriver" where
  "watching = \<lparr>hooks_join_group = (\<lambda>g. [])(''g'' := [report]), hooks_leave_group = (\<lambda>g. []),
             group_members = [''g'' \<mapsto> []]\<rparr>"

definition watching_twice :: "event CoordinationDriver" where
  "watching_twice = \<lparr>hooks_join_group = (\<lambda>g. [])(''g'' := [report]),
             hooks_leave_group = (\<lambda>g. [])(''g'' := [report]),
             group_members = [''g'' \<mapsto> [''m1'']]\<rparr>"

section \<open>Keys, futures and the registry\<close>

lemma groups_ne_group_key: "groups d \<noteq> encode_group_id d g"
  by (simp add: groups_def encode_group_id_def group_prefix_def NAMESPACE_SEP_def)

lemma encode_group_id_inj: "(encode_group_id d g = encode_group_id d g') = (g = g')"
  by (simp add: encode_group_id_def)

lemma map_of_case_bool: "(case map_of h f of None \<Rightarrow> False | Some v \<Rightarrow> True) = (f \<in> fst ` set h)"
proof (cases "map_of h f")
  case None
  moreover from None have "f \<notin> fst ` set h" by (simp add: map_of_eq_None_iff)
  ultimately show ?thesis by (simp del: map_of_eq_None_iff)
next
  case (Some a)
  then have "(f, a) \<in> set h" by (rule map_of_SomeD)
  then have "f \<in> fst ` set h" by force
  with Some show ?thesis by simp
qed

lemma not_created_absent:
  assumes "redis_ok d r" and "\<not> group_created d r g"
  shows "r (encode_group_id d g) = None"
proof (cases "r (encode_group_id d g)")
  case None
  then show ?thesis .
next
  case (Some v)
  with assms(1) have "group_hash_ok v"
    by (auto simp: redis_ok_def split: option.splits dest: spec[where x=g])
  with Some assms(2) show ?thesis
    by (auto simp: group_hash_ok_def group_created_def hexists_def map_of_case_bool split: rvalue.splits)
qed

lemma call_get_in_time:
  "in_time timeout t \<Longrightarrow> call_get timeout (Inr (Completes t out)) =
     Some (case out of Inl e \<Rightarrow> Inl (late_translate e) | Inr v \<Rightarrow> Inr v)"
  by (auto simp: call_get_def get_def fut_result_def in_time_def split: option.splits)

lemma ready_simps:
  "ready d \<Longrightarrow> has_client d" "ready d \<Longrightarrow> started d" "ready d \<Longrightarrow> executor_running d"
  by (simp_all add: ready_def)

lemma submit_running:
  "ready d \<Longrightarrow>
   submit d (Some t) cb r = (case cb d r of (out, d', r') \<Rightarrow> (Inr (Completes t out), d', r'))"
  by (simp add: submit_def ready_def)

lemma created_hash:
  "group_created d r g \<Longrightarrow> \<exists>h. r (encode_group_id d g) = Some (RHash h) \<and> GROUP_EXISTS \<in> fst ` set h"
  by (auto simp: group_created_def hexists_def map_of_case_bool split: option.splits rvalue.splits)

lemma created_exists: "group_created d r g \<Longrightarrow> redis_exists r (encode_group_id d g)"
  by (auto dest: created_hash simp: redis_exists_def)

lemma registry_absent:
  assumes "redis_ok d r" and "r (encode_group_id d g) = None"
  shows "g \<notin> set (registry d r)"
  using assms
  by (auto simp: redis_ok_def registry_ok_def registry_def redis_exists_def
      split: option.splits rvalue.splits)

lemma registry_distinct: "redis_ok d r \<Longrightarrow> distinct (registry d r)"
  by (auto simp: redis_ok_def registry_ok_def registry_def split: option.splits rvalue.splits)

lemma create_group_txn_new:
  assumes "redis_ok d r" and "r (encode_group_id d g) = None"
  shows "create_group_txn d g r =
     (Inr (), d, r(groups d \<mapsto> RSet (registry d r @ [g]),
                  encode_group_id d g \<mapsto> RHash [(GROUP_EXISTS, ''1'')]))"
proof -
  have notin: "g \<notin> set (registry d r)"
    by (rule registry_absent[OF assms])
  have sadd: "sadd (groups d) g r = Inr (1, r(groups d \<mapsto> RSet (registry d r @ [g])))"
    using assms(1) notin
    by (auto simp: sadd_def registry_def redis_ok_def registry_ok_def split: option.splits rvalue.splits)
  have "hset (encode_group_id d g) GROUP_EXISTS ''1'' (r(groups d \<mapsto> RSet (registry d r @ [g])))
      = Inr (1, r(groups d \<mapsto> RSet (registry d r @ [g]),
                  encode_group_id d g \<mapsto> RHash [(GROUP_EXISTS, ''1'')]))"
    using assms(2) groups_ne_group_key[of d g] by (simp add: hset_def)
  with sadd assms(2) show ?thesis
    by (simp add: create_group_txn_def redis_exists_def)
qed

lemma create_group_txn_new_ok:
  assumes "redis_ok d r" and "r (encode_group_id d g) = None"
  shows "redis_ok d (r(groups d \<mapsto> RSet (registry d r @ [g]),
                  encode_group_id d g \<mapsto> RHash [(GROUP_EXISTS, ''1'')]))"
proof -
  let ?r = "r(groups d \<mapsto> RSet (registry d r @ [g]),
                  encode_group_id d g \<mapsto> RHash [(GROUP_EXISTS, ''1'')])"
  have notin: "g \<notin> set (registry d r)"
    by (rule registry_absent[OF assms])
  have hashes: "case ?r (encode_group_id d g') of None \<Rightarrow> True | Some v \<Rightarrow> group_hash_ok v" for g'
  proof (cases "g' = g")
    case True
    then show ?thesis by (simp add: group_hash_ok_def)
  next
    case False
    then have "?r (encode_group_id d g') = r (encode_group_id d g')"
      using groups_ne_group_key[of d g'] by (simp add: encode_group_id_inj)
    with assms(1) show ?thesis by (simp add: redis_ok_def)
  qed
  have old: "g' \<in> set (registry d r) \<Longrightarrow> redis_exists r (encode_group_id d g')" for g'
    using assms(1)
    by (auto simp: redis_ok_def registry_ok_def registry_def split: option.splits rvalue.splits)
  have ex: "redis_exists ?r (encode_group_id d g')" if "g' \<in> set (registry d r @ [g])" for g'
  proof (cases "g' = g")
    case True
    then show ?thesis by (simp add: redis_exists_def)
  next
    case False
    with that have "redis_exists r (encode_group_id d g')" by (auto intro: old)
    with False show ?thesis
      using groups_ne_group_key[of d g'] by (simp add: redis_exists_def encode_group_id_inj)
  qed
  have "registry_ok d ?r"
    using notin registry_distinct[OF assms(1)] ex groups_ne_group_key[of d g]
    by (simp add: registry_ok_def)
  with hashes show ?thesis by (simp add: redis_ok_def)
qed

lemma create_group_existing:
  assumes "ready d" and "redis_exists r (encode_group_id d g)"
  shows "create_group d (Some t) g r = (Inr (Completes t (Inl (GroupAlreadyExist g))), d, r)"
  using assms by (simp add: create_group_def submit_running ready_simps transaction_def create_group_txn_def)

lemma create_group_new:
  assumes "ready d" and "redis_ok d r" and "r (encode_group_id d g) = None"
  shows "create_group d (Some t) g r =
     (Inr (Completes t (Inr ())), d,
      r(groups d \<mapsto> RSet (registry d r @ [g]), encode_group_id d g \<mapsto> RHash [(GROUP_EXISTS, ''1'')]))"
  using assms by (simp add: create_group_def submit_running ready_simps transaction_def create_group_txn_new)

lemma call_get_never: "call_get None (Inr Never) = None"
  by (simp add: call_get_def get_def fut_result_def)

lemma call_get_raised: "call_get timeout (Inl e) = Some (Inl e)"
  by (simp add: call_get_def)

lemma call_get_none_completes:
  "call_get None (Inr (Completes t out)) =
     Some (case out of Inl e \<Rightarrow> Inl (late_translate e) | Inr v \<Rightarrow> Inr v)"
  by (rule call_get_in_time) (simp add: in_time_def)

lemma registry_new [simp]:
  "registry d (r(groups d \<mapsto> RSet s, encode_group_id d g \<mapsto> v)) = s"
  using groups_ne_group_key[of d g] by (simp add: registry_def)

lemma create_group_step:
  assumes "redis_ok d r" and "create_group d dur g r = (x, d1, r1)"
  shows "d1 = d \<and> redis_ok d r1
       \<and> (g \<in> set (registry d r) \<longrightarrow> g \<in> set (registry d r1))
       \<and> (call_get None x = Some (Inr ()) \<longrightarrow> g \<in> set (registry d r1))"
proof (cases "ready d")
  case False
  with assms show ?thesis
    by (auto simp: create_group_def submit_def ready_def call_get_raised split: if_splits)
next
  case run: True
  show ?thesis
  proof (cases dur)
    case None
    with run assms show ?thesis
      by (auto simp: create_group_def submit_def call_get_never ready_simps)
  next
    case (Some t)
    show ?thesis
    proof (cases "r (encode_group_id d g)")
      case None
      with run Some assms create_group_new[of d r g t] create_group_txn_new_ok[of d r g]
      show ?thesis by auto
    next
      case (Some v)
      then have "redis_exists r (encode_group_id d g)" by (simp add: redis_exists_def)
      with run \<open>dur = Some t\<close> assms create_group_existing[of d r g t]
      show ?thesis by (auto simp: call_get_none_completes)
    qed
  qed
qed

lemma count_list_distinct: "distinct xs \<Longrightarrow> count_list xs x = (if x \<in> set xs then 1 else 0)"
  by (induction xs) auto

lemma get_groups_ok:
  assumes "ready d" and "redis_ok d r" and "in_time timeout t"
  shows "call_get timeout (fst (get_groups d (Some t) r)) = Some (Inr (registry d r))"
proof -
  have "smembers r (groups d) = Inr (registry d r)"
    using assms(2)
    by (auto simp: smembers_def registry_def redis_ok_def registry_ok_def split: option.splits rvalue.splits)
  then show ?thesis
    using assms(1) by (simp add: get_groups_def submit_running ready_simps get_groups_work_def call_get_in_time[OF assms(3)])
qed

lemma redis_ok_empty: "redis_ok d Map.empty"
  by (simp add: redis_ok_def registry_ok_def)

lemma demo_driver_simps:
  "ready demo_driver" "has_client demo_driver"
  "started demo_driver" "executor_running demo_driver" "member_id demo_driver = ''m1''"
  "namespace demo_driver = ''_tooz''" "joined_groups demo_driver = []"
  by (simp_all add: demo_driver_def ready_def)

lemma demo_keys:
  "groups demo_driver = ''_tooz_groups''"
  "encode_group_id demo_driver g = ''_tooz_group:'' @ g"
  by (simp_all add: groups_def encode_group_id_def group_prefix_def NAMESPACE_SEP_def demo_driver_simps)

lemma demo_redis_ok: "redis_ok demo_driver demo_redis"
  by (simp add: redis_ok_def registry_ok_def demo_redis_def demo_keys group_hash_ok_def
      GROUP_EXISTS_def redis_exists_def)

section \<open>Operations on a group that was not created\<close>

text \<open>
  The four bodies test the key of the group (\<^verbatim>\<open>p.exists(encoded_group)\<close>), not
  the sentinel field. In a well-formed key space the two agree
  (\<open>not_created_absent\<close>, \<open>created_exists\<close>).
\<close>




section \<open>Creating a group\<close>

lemma lock_name_ne_groups: "lock_name (new_lock d nm) \<noteq> groups d"
proof
  assume "lock_name (new_lock d nm) = groups d"
  then have "last (namespace d @ ''_'' @ nm @ ''_lock'') = last (namespace d @ ''_groups'')"
    by (simp add: new_lock_def groups_def)
  then show False by simp
qed

lemma redis_ok_registry_set_ok: "redis_ok d r \<Longrightarrow> registry_set_ok d r"
  by (auto simp: redis_ok_def registry_ok_def registry_set_ok_def split: option.splits rvalue.splits)

lemma registry_set_distinct: "registry_set_ok d r \<Longrightarrow> distinct (registry d r)"
  by (auto simp: registry_set_ok_def registry_def split: option.splits rvalue.splits)

lemma create_group_txn_absent:
  assumes "registry_set_ok d r" and "r (encode_group_id d g) = None"
  shows "create_group_txn d g r =
     (Inr (), d, r(groups d \<mapsto> RSet (if g \<in> set (registry d r) then registry d r
                                         else registry d r @ [g]),
                  encode_group_id d g \<mapsto> RHash [(GROUP_EXISTS, ''1'')]))"
proof -
  let ?reg = "if g \<in> set (registry d r) then registry d r else registry d r @ [g]"
  have "\<exists>c. sadd (groups d) g r = Inr (c, r(groups d \<mapsto> RSet ?reg))"
    using assms(1)
    by (auto simp: sadd_def registry_def registry_set_ok_def fun_upd_idem
        split: option.splits rvalue.splits)
  then obtain c where sadd: "sadd (groups d) g r = Inr (c, r(groups d \<mapsto> RSet ?reg))" ..
  have "hset (encode_group_id d g) GROUP_EXISTS ''1'' (r(groups d \<mapsto> RSet ?reg))
      = Inr (1, r(groups d \<mapsto> RSet ?reg, encode_group_id d g \<mapsto> RHash [(GROUP_EXISTS, ''1'')]))"
    using assms(2) groups_ne_group_key[of d g] by (simp add: hset_def)
  with sadd assms(2) show ?thesis
    by (simp add: create_group_txn_def redis_exists_def)
qed

lemma create_group_absent:
  assumes "ready d" and "registry_set_ok d r" and "r (encode_group_id d g) = None"
  shows "create_group d (Some t) g r =
     (Inr (Completes t (Inr ())), d,
      r(groups d \<mapsto> RSet (if g \<in> set (registry d r) then registry d r else registry d r @ [g]),
        encode_group_id d g \<mapsto> RHash [(GROUP_EXISTS, ''1'')]))"
  using assms
  by (simp add: create_group_def submit_running ready_simps transaction_def create_group_txn_absent)

lemma registry_set_ok_new:
  "registry_set_ok d r \<Longrightarrow>
   registry_set_ok d (r(groups d \<mapsto> RSet (if g \<in> set (registry d r) then registry d r
                                                else registry d r @ [g]),
                       encode_group_id d g \<mapsto> v))"
  using groups_ne_group_key[of d g] registry_set_distinct[of d r]
  by (simp add: registry_set_ok_def)

lemma create_group_step_set:
  assumes "registry_set_ok d r" and "create_group d dur g r = (x, d1, r1)"
  shows "d1 = d \<and> registry_set_ok d r1
       \<and> (g \<in> set (registry d r) \<longrightarrow> g \<in> set (registry d r1))
       \<and> (call_get None x = Some (Inr ()) \<longrightarrow> g \<in> set (registry d r1))"
proof (cases "ready d")
  case False
  with assms show ?thesis
    by (auto simp: create_group_def submit_def ready_def call_get_raised split: if_splits)
next
  case run: True
  show ?thesis
  proof (cases dur)
    case None
    with run assms show ?thesis
      by (auto simp: create_group_def submit_def call_get_never ready_simps)
  next
    case (Some t)
    show ?thesis
    proof (cases "r (encode_group_id d g)")
      case None
      with run Some assms create_group_absent[of d r g t] registry_set_ok_new[of d r g]
      show ?thesis by auto
    next
      case (Some v)
      then have "redis_exists r (encode_group_id d g)" by (simp add: redis_exists_def)
      with run \<open>dur = Some t\<close> assms create_group_existing[of d r g t]
      show ?thesis by (auto simp: call_get_none_completes)
    qed
  qed
qed

lemma create_group_attempts_set:
  assumes "registry_set_ok d r" and "create_group_attempts d durs g r = (outs, d', r')"
  shows "d' = d \<and> registry_set_ok d r'
       \<and> (g \<in> set (registry d r) \<or> Some (Inr ()) \<in> set outs \<longrightarrow> g \<in> set (registry d r'))"
  using assms
proof (induction durs arbitrary: r outs d' r')
  case Nil
  then show ?case by simp
next
  case (Cons dur durs)
  obtain x d1 r1 where step: "create_group d dur g r = (x, d1, r1)"
    by (cases "create_group d dur g r") auto
  obtain outs2 d2 r2 where rest: "create_group_attempts d1 durs g r1 = (outs2, d2, r2)"
    by (cases "create_group_attempts d1 durs g r1") auto
  from create_group_step_set[OF Cons.prems(1) step]
  have d1: "d1 = d" and ok1: "registry_set_ok d r1"
    and keep: "g \<in> set (registry d r) \<longrightarrow> g \<in> set (registry d r1)"
    and succ: "call_get None x = Some (Inr ()) \<longrightarrow> g \<in> set (registry d r1)"
    by auto
  from Cons.prems(2) step rest
  have eqs: "outs = call_get None x # outs2" "d' = d2" "r' = r2" by auto
  from Cons.IH[OF ok1 rest[unfolded d1]]
  have ih: "d2 = d" "registry_set_ok d r2"
    "g \<in> set (registry d r1) \<or> Some (Inr ()) \<in> set outs2 \<longrightarrow> g \<in> set (registry d r2)"
    by auto
  from eqs ih keep succ show ?case by auto
qed

lemma get_groups_set_ok:
  assumes "ready d" and "registry_set_ok d r" and "in_time timeout t"
  shows "call_get timeout (fst (get_groups d (Some t) r)) = Some (Inr (registry d r))"
proof -
  have "smembers r (groups d) = Inr (registry d r)"
    using assms(2)
    by (auto simp: smembers_def registry_def registry_set_ok_def split: option.splits rvalue.splits)
  then show ?thesis
    using assms(1)
    by (simp add: get_groups_def submit_running ready_simps get_groups_work_def
        call_get_in_time[OF assms(3)])
qed

text \<open>
  C3, as amended. \<^verbatim>\<open>create_group(g)\<close> of a started driver, with the registry key
  holding a set or nothing, fails with \<^verbatim>\<open>GroupAlreadyExist\<close> when the key of
  \<open>g\<close> is present, as it is whenever the existence sentinel of \<open>g\<close> is
  present, and then changes nothing (the registry included). When the key is
  absent, as it is in a well-formed key space whenever the sentinel is absent, it
  succeeds, adds \<open>g\<close> to the registry (at the end, if the registry did not hold
  it) and sets the sentinel. Hence after any sequence of \<^verbatim>\<open>create_group(g)\<close>
  attempts of which one succeeded, the list that \<^verbatim>\<open>get_groups()\<close> gives holds
  \<open>g\<close> exactly once.
\<close>

theorem create_group_tests_key:
  assumes "ready d" and "registry_set_ok d r" and "in_time timeout t"
  shows "(group_created d r g \<longrightarrow> redis_exists r (encode_group_id d g))
       \<and> (redis_exists r (encode_group_id d g) \<longrightarrow>
            call_get timeout (fst (create_group d (Some t) g r)) = Some (Inl (GroupAlreadyExist g))
          \<and> snd (create_group d (Some t) g r) = (d, r))
       \<and> (redis_ok d r \<and> \<not> group_created d r g \<longrightarrow> \<not> redis_exists r (encode_group_id d g))
       \<and> (\<not> redis_exists r (encode_group_id d g) \<longrightarrow>
            call_get timeout (fst (create_group d (Some t) g r)) = Some (Inr ())
          \<and> set (registry d (snd (snd (create_group d (Some t) g r)))) = insert g (set (registry d r))
          \<and> distinct (registry d (snd (snd (create_group d (Some t) g r))))
          \<and> (g \<notin> set (registry d r) \<longrightarrow>
                registry d (snd (snd (create_group d (Some t) g r))) = registry d r @ [g])
          \<and> group_created d (snd (snd (create_group d (Some t) g r))) g)
       \<and> (Some (Inr ()) \<in> set (fst (create_group_attempts d durs g r)) \<longrightarrow>
            (\<exists>gs. call_get timeout
                     (fst (get_groups d (Some t) (snd (snd (create_group_attempts d durs g r)))))
                   = Some (Inr gs)
                 \<and> count_list gs g = 1))"
proof (intro conjI impI)
  assume "group_created d r g"
  then show "redis_exists r (encode_group_id d g)" by (rule created_exists)
next
  assume e: "redis_exists r (encode_group_id d g)"
  have "create_group d (Some t) g r = (Inr (Completes t (Inl (GroupAlreadyExist g))), d, r)"
    by (rule create_group_existing[OF assms(1) e])
  then show "call_get timeout (fst (create_group d (Some t) g r)) = Some (Inl (GroupAlreadyExist g))"
    and "snd (create_group d (Some t) g r) = (d, r)"
    by (simp_all add: call_get_in_time[OF assms(3)] late_translate_def)
next
  assume "redis_ok d r \<and> \<not> group_created d r g"
  then have "r (encode_group_id d g) = None" by (auto intro: not_created_absent)
  then show "\<not> redis_exists r (encode_group_id d g)" by (simp add: redis_exists_def)
next
  assume n: "\<not> redis_exists r (encode_group_id d g)"
  then have absent: "r (encode_group_id d g) = None"
    by (simp add: redis_exists_def split: option.splits)
  note eq = create_group_absent[OF assms(1,2) absent, of t]
  show "call_get timeout (fst (create_group d (Some t) g r)) = Some (Inr ())"
    by (simp add: eq call_get_in_time[OF assms(3)])
  show "set (registry d (snd (snd (create_group d (Some t) g r)))) = insert g (set (registry d r))"
    by (auto simp: eq)
  show "distinct (registry d (snd (snd (create_group d (Some t) g r))))"
    using registry_set_distinct[OF assms(2)] by (simp add: eq)
  show "group_created d (snd (snd (create_group d (Some t) g r))) g"
    by (simp add: eq group_created_def hexists_def)
  assume "g \<notin> set (registry d r)"
  then show "registry d (snd (snd (create_group d (Some t) g r))) = registry d r @ [g]"
    by (simp add: eq)
next
  assume s: "Some (Inr ()) \<in> set (fst (create_group_attempts d durs g r))"
  obtain outs d' r' where run: "create_group_attempts d durs g r = (outs, d', r')"
    by (cases "create_group_attempts d durs g r") auto
  from create_group_attempts_set[OF assms(2) run] s run
  have ok: "registry_set_ok d r'" and mem: "g \<in> set (registry d r')" by auto
  have "call_get timeout (fst (get_groups d (Some t) r')) = Some (Inr (registry d r'))"
    by (rule get_groups_set_ok[OF assms(1) ok assms(3)])
  moreover have "count_list (registry d r') g = 1"
    using registry_set_distinct[OF ok] mem by (simp add: count_list_distinct)
  ultimately show "\<exists>gs. call_get timeout
                     (fst (get_groups d (Some t) (snd (snd (create_group_attempts d durs g r)))))
                   = Some (Inr gs) \<and> count_list gs g = 1"
    by (simp add: run)
qed

theorem create_group_tests_key_witness:
  "ready demo_driver \<and> registry_set_ok demo_driver demo_collide \<and> in_time (Some 10) 2
   \<and> \<not> redis_exists demo_collide (encode_group_id demo_driver ''g'')
   \<and> call_get (Some 10) (fst (create_group demo_driver (Some 2) ''g'' demo_collide)) = Some (Inr ())
   \<and> registry demo_driver (snd (snd (create_group demo_driver (Some 2) ''g'' demo_collide))) = [''g'']
   \<and> group_created demo_driver (snd (snd (create_group demo_driver (Some 2) ''g'' demo_collide))) ''g''
   \<and> redis_exists demo_collide (encode_group_id demo_driver ''x_lock'')
   \<and> call_get (Some 10) (fst (create_group demo_driver (Some 2) ''x_lock'' demo_collide))
       = Some (Inl (GroupAlreadyExist ''x_lock''))
   \<and> registry_set_ok demo_driver demo_redis \<and> redis_ok demo_driver demo_redis
   \<and> group_created demo_driver demo_redis ''h''
   \<and> call_get (Some 10) (fst (create_group demo_driver (Some 2) ''h'' demo_redis))
       = Some (Inl (GroupAlreadyExist ''h''))
   \<and> snd (create_group demo_driver (Some 2) ''h'' demo_redis) = (demo_driver, demo_redis)
   \<and> \<not> group_created demo_driver demo_redis ''g''
   \<and> ''g'' \<notin> set (registry demo_driver demo_redis)
   \<and> call_get (Some 10) (fst (create_group demo_driver (Some 2) ''g'' demo_redis)) = Some (Inr ())
   \<and> registry demo_driver (snd (snd (create_group demo_driver (Some 2) ''g'' demo_redis)))
       = [''h'', ''g'']
   \<and> group_created demo_driver (snd (snd (create_group demo_driver (Some 2) ''g'' demo_redis))) ''g''
   \<and> fst (create_group_attempts demo_driver [Some 0, None, Some 1] ''g'' demo_collide)
       = [Some (Inr ()), None, Some (Inl (GroupAlreadyExist ''g''))]
   \<and> (\<exists>gs. call_get (Some 10)
              (fst (get_groups demo_driver (Some 2)
                 (snd (snd (create_group_attempts demo_driver [Some 0, None, Some 1] ''g''
                              demo_collide)))))
            = Some (Inr gs) \<and> count_list gs ''g'' = 1)"
proof -
  have h: "ready demo_driver" "registry_set_ok demo_driver demo_collide" "in_time (Some 10) 2"
    by (simp_all add: demo_driver_simps registry_set_ok_def demo_collide_def demo_keys in_time_def)
  have k: "registry_set_ok demo_driver demo_redis"
    by (rule redis_ok_registry_set_ok[OF demo_redis_ok])
  have n: "\<not> redis_exists demo_collide (encode_group_id demo_driver ''g'')"
    by (simp add: redis_exists_def demo_collide_def demo_keys)
  have e: "redis_exists demo_collide (encode_group_id demo_driver ''x_lock'')"
    by (simp add: redis_exists_def demo_collide_def demo_keys)
  have c: "group_created demo_driver demo_redis ''h''"
    by (simp add: group_created_def hexists_def demo_redis_def demo_keys GROUP_EXISTS_def)
  have m: "\<not> group_created demo_driver demo_redis ''g''"
    by (simp add: group_created_def hexists_def demo_redis_def demo_keys)
  have reg: "registry demo_driver demo_collide = []"
    by (simp add: registry_def demo_collide_def demo_keys)
  have reg2: "registry demo_driver demo_redis = [''h'']"
    by (simp add: registry_def demo_redis_def demo_keys)
  have outs: "fst (create_group_attempts demo_driver [Some 0, None, Some 1] ''g'' demo_collide)
       = [Some (Inr ()), None, Some (Inl (GroupAlreadyExist ''g''))]"
    by (simp add: create_group_def submit_def transaction_def create_group_txn_def demo_driver_simps
        demo_keys demo_collide_def redis_exists_def sadd_def hset_def GROUP_EXISTS_def call_get_def
        get_def fut_result_def late_translate_def)
  from create_group_tests_key[OF h, of "''g''" "[Some 0, None, Some 1]"]
    create_group_tests_key[OF h, of "''x_lock''" "[]"]
    create_group_tests_key[OF h(1) k h(3), of "''h''" "[]"]
    create_group_tests_key[OF h(1) k h(3), of "''g''" "[]"]
    n e outs h k c m demo_redis_ok
  show ?thesis by (simp add: reg reg2)
qed

text \<open>
  C3 as stated fails in its second half when the key of the group is present
  without the sentinel: while the lock \<^verbatim>\<open>get_lock('group:x')\<close> is held, the
  sentinel of the group \<open>x_lock\<close> is absent, but \<^verbatim>\<open>create_group('x_lock')\<close>
  fails with \<^verbatim>\<open>GroupAlreadyExist\<close>, adds nothing to the registry and sets no
  sentinel.
\<close>

theorem create_group_blocked_by_lock_key:
  "lock_name (new_lock demo_driver ''group:x'') = encode_group_id demo_driver ''x_lock''
   \<and> \<not> group_created demo_driver demo_collide ''x_lock''
   \<and> call_get None (fst (create_group demo_driver (Some 0) ''x_lock'' demo_collide))
       = Some (Inl (GroupAlreadyExist ''x_lock''))
   \<and> snd (create_group demo_driver (Some 0) ''x_lock'' demo_collide) = (demo_driver, demo_collide)
   \<and> registry demo_driver demo_collide = []"
  by (simp add: new_lock_def demo_keys demo_driver_simps group_created_def hexists_def
      demo_collide_def create_group_def submit_def transaction_def create_group_txn_def
      redis_exists_def registry_def call_get_def get_def fut_result_def late_translate_def)

section \<open>The members of a group\<close>

lemma map_decode_member_id: "map decode_member_id xs = xs"
  by (induction xs) (simp_all add: decode_member_id_def)

lemma get_members_existing:
  assumes "ready d" and "r (encode_group_id d g) = Some (RHash h)"
  shows "get_members d (Some t) g r =
     (Inr (Completes t (Inr (filter (\<lambda>m. m \<noteq> GROUP_EXISTS) (map fst h)))), d, r)"
  using assms
  by (simp add: get_members_def submit_running ready_simps transaction_def get_members_txn_def redis_exists_def
      hkeys_def map_decode_member_id)

text \<open>
  C4. For every created group \<open>g\<close> (its existence sentinel is present),
  \<^verbatim>\<open>get_members(g)\<close> of a started driver gives exactly the fields of the hash of
  \<open>g\<close> other than the sentinel and changes nothing; a created group whose only
  field is the sentinel gives the empty list. In a well-formed key space a group
  that was never created gives \<^verbatim>\<open>GroupNotCreated\<close> instead, and the empty list
  once \<^verbatim>\<open>create_group(g)\<close> has run.
\<close>

theorem get_members_excludes_sentinel:
  assumes "ready d" and "in_time timeout t"
  shows "(group_created d r g \<longrightarrow>
            call_get timeout (fst (get_members d (Some t) g r))
              = Some (Inr (filter (\<lambda>m. m \<noteq> GROUP_EXISTS) (group_fields d r g)))
          \<and> snd (get_members d (Some t) g r) = (d, r))
       \<and> (group_created d r g \<and> set (group_fields d r g) = {GROUP_EXISTS} \<longrightarrow>
            call_get timeout (fst (get_members d (Some t) g r)) = Some (Inr []))
       \<and> (redis_ok d r \<and> \<not> group_created d r g \<longrightarrow>
            call_get timeout (fst (get_members d (Some t) g r)) = Some (Inl (GroupNotCreated g))
          \<and> call_get timeout
               (fst (get_members d (Some t) g (snd (snd (create_group d (Some t) g r)))))
              = Some (Inr []))"
proof -
  have created: "call_get timeout (fst (get_members d (Some t) g r))
              = Some (Inr (filter (\<lambda>m. m \<noteq> GROUP_EXISTS) (group_fields d r g)))
          \<and> snd (get_members d (Some t) g r) = (d, r)" if c: "group_created d r g"
  proof -
    from created_hash[OF c] obtain h where h: "r (encode_group_id d g) = Some (RHash h)"
      by blast
    show ?thesis
      using get_members_existing[where r=r and h=h and g=g and t=t, OF assms(1) h]
      by (simp add: call_get_in_time[OF assms(2)] group_fields_def h)
  qed
  have empty: "call_get timeout (fst (get_members d (Some t) g r)) = Some (Inr [])"
    if c: "group_created d r g" and e: "set (group_fields d r g) = {GROUP_EXISTS}"
  proof -
    from e have "filter (\<lambda>m. m \<noteq> GROUP_EXISTS) (group_fields d r g) = []"
      by (auto simp: filter_empty_conv)
    with created[OF c] show ?thesis by simp
  qed
  have fresh: "call_get timeout (fst (get_members d (Some t) g r)) = Some (Inl (GroupNotCreated g))
          \<and> call_get timeout
               (fst (get_members d (Some t) g (snd (snd (create_group d (Some t) g r)))))
              = Some (Inr [])" if ok: "redis_ok d r" and n: "\<not> group_created d r g"
  proof -
    have absent: "r (encode_group_id d g) = None"
      by (rule not_created_absent[OF ok n])
    then have 1: "get_members d (Some t) g r = (Inr (Completes t (Inl (GroupNotCreated g))), d, r)"
      using assms(1)
      by (simp add: get_members_def submit_running ready_simps transaction_def get_members_txn_def redis_exists_def)
    let ?r = "r(groups d \<mapsto> RSet (registry d r @ [g]),
                encode_group_id d g \<mapsto> RHash [(GROUP_EXISTS, ''1'')])"
    have 2: "snd (snd (create_group d (Some t) g r)) = ?r"
      by (simp add: create_group_new[OF assms(1) ok absent])
    have 3: "get_members d (Some t) g ?r = (Inr (Completes t (Inr [])), d, ?r)"
      using get_members_existing[where r="?r" and g=g and h="[(GROUP_EXISTS, ''1'')]" and t=t,
          OF assms(1)] by simp
    show ?thesis
      by (simp add: 1 2 3 call_get_in_time[OF assms(2)] late_translate_def)
  qed
  from created empty fresh show ?thesis by blast
qed

theorem get_members_excludes_sentinel_witness:
  "ready demo_driver \<and> in_time None 5
   \<and> group_created demo_driver demo_redis ''h''
   \<and> group_fields demo_driver demo_redis ''h'' = [''__created__'', ''m2'']
   \<and> call_get None (fst (get_members demo_driver (Some 5) ''h'' demo_redis)) = Some (Inr [''m2''])
   \<and> redis_ok demo_driver demo_redis \<and> \<not> group_created demo_driver demo_redis ''g''
   \<and> call_get None (fst (get_members demo_driver (Some 5) ''g'' demo_redis))
       = Some (Inl (GroupNotCreated ''g''))
   \<and> call_get None
        (fst (get_members demo_driver (Some 5) ''g''
           (snd (snd (create_group demo_driver (Some 5) ''g'' demo_redis)))))
       = Some (Inr [])"
proof -
  have h: "ready demo_driver" "in_time None 5"
    by (simp_all add: demo_driver_simps in_time_def)
  have c: "group_created demo_driver demo_redis ''h''"
    by (simp add: group_created_def hexists_def demo_redis_def demo_keys GROUP_EXISTS_def)
  have f: "group_fields demo_driver demo_redis ''h'' = [''__created__'', ''m2'']"
    by (simp add: group_fields_def demo_redis_def demo_keys)
  have n: "\<not> group_created demo_driver demo_redis ''g''"
    by (simp add: group_created_def hexists_def demo_redis_def demo_keys)
  from get_members_excludes_sentinel[OF h, of demo_redis "''h''"]
    get_members_excludes_sentinel[OF h, of demo_redis "''g''"] h c f n demo_redis_ok
  show ?thesis by (simp add: GROUP_EXISTS_def)
qed

section \<open>Joining a group twice\<close>

text \<open>
  When the member already has an entry, the body of \<^verbatim>\<open>join_group\<close> raises
  \<^verbatim>\<open>MemberAlreadyExist\<close> only after its \<^verbatim>\<open>HSET\<close> has replaced the stored blob.
\<close>

lemma join_group_txn_member_exists:
  assumes "r (encode_group_id d g) = Some (RHash h)" and "map_of h em = Some old"
    and "pack caps2 = Inr blob"
  shows "join_group_txn pack d g em caps2 r =
     (Inl (MemberAlreadyExist g (member_id d)), d,
      r(encode_group_id d g \<mapsto> RHash (AList.update em blob h)))"
  using assms by (simp add: join_group_txn_def redis_exists_def dumps_def hset_def)

lemma join_group_member_exists:
  assumes "ready d" and "member_id d \<noteq> GROUP_EXISTS"
    and "r (encode_group_id d g) = Some (RHash h)" and "map_of h (member_id d) = Some old"
    and "pack caps2 = Inr blob"
  shows "join_group pack d (Some t) g caps2 r =
     (Inr (Completes t (Inl (MemberAlreadyExist g (member_id d)))), d,
      r(encode_group_id d g \<mapsto> RHash (AList.update (member_id d) blob h)))"
    and "hget (snd (snd (join_group pack d (Some t) g caps2 r))) (encode_group_id d g) (member_id d)
           = Inr (Some blob)"
  using assms
  by (simp_all add: join_group_def encode_member_id_def submit_running ready_simps transaction_def
      join_group_txn_member_exists hget_def update_conv')

text \<open>
  C1. The claim is that a second \<^verbatim>\<open>join_group(g, caps2)\<close> of the same member
  fails with \<^verbatim>\<open>MemberAlreadyExist\<close> and leaves the stored capabilities as they
  were. On the run \<^verbatim>\<open>create_group('g')\<close>, \<^verbatim>\<open>join_group('g', 'caps')\<close>,
  \<^verbatim>\<open>join_group('g', 'caps2')\<close> from the empty key space the second join does fail
  with \<^verbatim>\<open>MemberAlreadyExist\<close>, but the entry of the member, which held \<open>caps\<close>
  after the first join, holds \<open>caps2\<close> after the second.
\<close>

theorem join_group_again_overwrites:
  "(case create_group demo_driver (Some 0) ''g'' Map.empty of
      (x1, d1, r1) \<Rightarrow>
        (case join_group Inr d1 (Some 0) ''g'' ''caps'' r1 of
           (x2, d2, r2) \<Rightarrow>
             (case join_group Inr d2 (Some 0) ''g'' ''caps2'' r2 of
                (x3, d3, r3) \<Rightarrow>
                  call_get None x2 = Some (Inr ())
                  \<and> hget r2 (encode_group_id demo_driver ''g'') ''m1'' = Inr (Some ''caps'')
                  \<and> call_get None x3 = Some (Inl (MemberAlreadyExist ''g'' ''m1''))
                  \<and> hget r3 (encode_group_id demo_driver ''g'') ''m1'' = Inr (Some ''caps2''))))"
  by (simp add: create_group_def join_group_def submit_def transaction_def create_group_txn_def
      join_group_txn_def encode_member_id_def dumps_def demo_driver_def encode_group_id_def
      group_prefix_def groups_def NAMESPACE_SEP_def redis_exists_def
      sadd_def hset_def hget_def GROUP_EXISTS_def call_get_def get_def fut_result_def
      late_translate_def)

section \<open>Getting the result of a future\<close>

lemma get_some: "get (Some limit) fut =
   (case fut of
      Never \<Rightarrow> Some (max 0 limit, Inl (OperationTimedOut []))
    | Completes t out \<Rightarrow>
        if t \<le> max 0 limit
        then Some (t, case out of Inl e \<Rightarrow> Inl (late_translate e) | Inr v \<Rightarrow> Inr v)
        else Some (max 0 limit, Inl (OperationTimedOut [])))"
  by (simp add: get_def fut_result_def late_translate_def split: future.splits)

text \<open>
  C6. \<^verbatim>\<open>get(timeout)\<close> with a timeout always returns, after a wait of at most the
  timeout, and raises \<^verbatim>\<open>OperationTimedOut\<close> when the work is not complete by then
  (it never completes, or completes later). A redis error raised inside a unit of
  work does not make the submission fail: \<^verbatim>\<open>_submit\<close> of a started driver returns
  the future, and \<^verbatim>\<open>get\<close> raises the error translated, a connection or timeout
  error as \<^verbatim>\<open>ToozConnectionError\<close> and any other redis error as \<^verbatim>\<open>ToozError\<close>.
\<close>

theorem get_bounded_and_late_translation:
  assumes "ready d" and "cb d r = (Inl e, d', r')"
    and "t \<le> max 0 limit"
  shows "(\<exists>waited out. get (Some limit) (fut :: 'a future) = Some (waited, out) \<and> waited \<le> max 0 limit)
       \<and> get (Some limit) (Never :: 'a future) = Some (max 0 limit, Inl (OperationTimedOut []))
       \<and> (max 0 limit < t' \<longrightarrow>
            get (Some limit) (Completes t' out' :: 'a future)
              = Some (max 0 limit, Inl (OperationTimedOut [])))
       \<and> fst (submit d (Some t) cb r) = Inr (Completes t (Inl e))
       \<and> (e = RedisConnectionError m \<or> e = RedisTimeoutError m \<longrightarrow>
            get (Some limit) (Completes t (Inl e) :: 'a future) = Some (t, Inl (ToozConnectionError m)))
       \<and> (e = RedisResponseError m \<or> e = RedisLockError m \<longrightarrow>
            get (Some limit) (Completes t (Inl e) :: 'a future) = Some (t, Inl (ToozError m)))"
proof -
  have 1: "\<exists>waited out. get (Some limit) fut = Some (waited, out) \<and> waited \<le> max 0 limit"
    by (cases fut) (auto simp: get_some)
  have 2: "fst (submit d (Some t) cb r) = Inr (Completes t (Inl e))"
    using assms(1,2) by (simp add: submit_running)
  show ?thesis
    using 1 2 assms(3) by (auto simp: get_some late_translate_def)
qed

theorem get_bounded_and_late_translation_witness:
  "ready demo_driver
   \<and> transaction (get_members_txn demo_driver ''g'') demo_wrong
       = (Inl wrongtype, demo_driver, demo_wrong)
   \<and> (2::real) \<le> max 0 5
   \<and> fst (get_members demo_driver (Some 2) ''g'' demo_wrong) = Inr (Completes 2 (Inl wrongtype))
   \<and> get (Some 5) (Completes 2 (Inl wrongtype) :: string list future)
       = Some (2, Inl (ToozError ''WRONGTYPE Operation against a key holding the wrong kind of value''))
   \<and> get (Some 5) (Completes 7 (Inr [''m'']) :: string list future)
       = Some (5, Inl (OperationTimedOut []))"
proof -
  have h: "ready demo_driver"
    by (simp_all add: demo_driver_simps)
  have w: "transaction (get_members_txn demo_driver ''g'') demo_wrong
       = (Inl wrongtype, demo_driver, demo_wrong)"
    by (simp add: transaction_def get_members_txn_def demo_keys demo_wrong_def redis_exists_def hkeys_def)
  have t: "(2::real) \<le> max 0 5" by simp
  from get_bounded_and_late_translation[where d=demo_driver
      and cb="\<lambda>d'. transaction (get_members_txn d' ''g'')" and r=demo_wrong and e=wrongtype
      and d'=demo_driver and r'=demo_wrong and t=2 and limit=5 and t'=7 and out'="Inr [''m''] :: exc + string list"
      and m="''WRONGTYPE Operation against a key holding the wrong kind of value''"
      and fut=Never, OF h w t]
    h w t
  show ?thesis by (simp add: get_members_def wrongtype_def demo_driver_simps)
qed

text \<open>
  C10. \<^verbatim>\<open>get()\<close> without a timeout waits at most 10 seconds: on work that never
  completes, and on work that completes later than that, it raises
  \<^verbatim>\<open>OperationTimedOut\<close> after 10 seconds; on work complete within 10 seconds it
  gives the outcome of the work; it never blocks for ever.
\<close>

theorem get_default_ten_seconds:
  "get_default (Never :: 'a future) = Some (10, Inl (OperationTimedOut []))
   \<and> get_default (Completes t out :: 'a future) =
       (if t \<le> 10
        then Some (t, case out of Inl e \<Rightarrow> Inl (late_translate e) | Inr v \<Rightarrow> Inr v)
        else Some (10, Inl (OperationTimedOut [])))
   \<and> (case get_default (fut :: 'a future) of None \<Rightarrow> False | Some (waited, res) \<Rightarrow> waited \<le> 10)"
  by (cases fut) (simp_all add: get_default_def get_some)

section \<open>Releasing a lock\<close>

text \<open>
  C5. \<^verbatim>\<open>release()\<close> of a lock whose held flag is false returns false, whatever
  the store would answer, and leaves everything as it was: it makes no native
  call. When the flag is true it makes the native release call; if the store
  confirms, it returns true, clears the flag and removes the lock from the
  held-lock set of the driver (the other locks keep their flag and membership); if
  the native call raises a lock error it returns false without raising; and
  whatever the native call raises, the flags and the held-lock set stay as they
  were.
\<close>

theorem release_reports_store_verdict:
  shows "(\<not> acquired (lock_objs w l) \<longrightarrow> release l rep w = (Inr False, w))
       \<and> (acquired (lock_objs w l) \<longrightarrow>
            native_calls (snd (release l rep w))
              = native_calls w @ [LockRelease (lock_name (lock_objs w l))])
       \<and> (acquired (lock_objs w l) \<and> rep = Returns () \<longrightarrow>
            fst (release l rep w) = Inr True
          \<and> \<not> acquired (lock_objs (snd (release l rep w)) l)
          \<and> l \<notin> set (acquired_locks (coord (snd (release l rep w))))
          \<and> (\<forall>l'. l' \<noteq> l \<longrightarrow>
                lock_objs (snd (release l rep w)) l' = lock_objs w l'
              \<and> (l' \<in> set (acquired_locks (coord (snd (release l rep w))))
                   \<longleftrightarrow> l' \<in> set (acquired_locks (coord w)))))
       \<and> (acquired (lock_objs w l) \<and> rep = Raises e \<and> is_LockError e \<longrightarrow>
            fst (release l rep w) = Inr False)
       \<and> (acquired (lock_objs w l) \<and> rep = Raises e \<and> \<not> is_LockError e \<longrightarrow>
            fst (release l rep w) = Inl (translate_failures e))
       \<and> (rep = Raises e \<longrightarrow>
            lock_objs (snd (release l rep w)) = lock_objs w
          \<and> coord (snd (release l rep w)) = coord w)"
  by (cases rep) (auto simp: release_def Let_def)

lemma demo_held_simps:
  "acquired (lock_objs demo_held 0)" "acquired_locks (coord demo_held) = [0]"
  "lock_name (lock_objs demo_held 0) = ''_tooz_res_lock''"
  "native_calls demo_held = [LockAcquire ''_tooz_res_lock'' True None]"
  by (simp_all add: demo_held_def lock_run_def acquire_def demo_locks_def new_lock_def Let_def
      demo_driver_def)

theorem release_reports_store_verdict_witness:
  "\<not> acquired (lock_objs demo_locks 0)
   \<and> release 0 (Raises (RedisConnectionError ''down'')) demo_locks = (Inr False, demo_locks)
   \<and> acquired (lock_objs demo_held 0)
   \<and> fst (release 0 (Returns ()) demo_held) = Inr True
   \<and> \<not> acquired (lock_objs (snd (release 0 (Returns ()) demo_held)) 0)
   \<and> acquired_locks (coord (snd (release 0 (Returns ()) demo_held))) = []
   \<and> is_LockError (RedisLockError ''not owned'')
   \<and> fst (release 0 (Raises (RedisLockError ''not owned'')) demo_held) = Inr False
   \<and> acquired (lock_objs (snd (release 0 (Raises (RedisLockError ''not owned'')) demo_held)) 0)
   \<and> acquired_locks (coord (snd (release 0 (Raises (RedisLockError ''not owned'')) demo_held))) = [0]
   \<and> native_calls (snd (release 0 (Raises (RedisLockError ''not owned'')) demo_held))
       = [LockAcquire ''_tooz_res_lock'' True None, LockRelease ''_tooz_res_lock'']"
proof -
  have n: "\<not> acquired (lock_objs demo_locks 0)"
    by (simp add: demo_locks_def new_lock_def)
  have e: "acquired_locks (coord (snd (release 0 (Returns ()) demo_held))) = []"
    by (simp add: release_def Let_def demo_held_simps)
  from release_reports_store_verdict[of demo_locks 0 "Raises (RedisConnectionError ''down'')"]
    release_reports_store_verdict[of demo_held 0 "Returns ()"]
    release_reports_store_verdict[of demo_held 0 "Raises (RedisLockError ''not owned'')"
      "RedisLockError ''not owned''"]
    n e demo_held_simps
  show ?thesis by simp
qed

section \<open>The held flag and the held-lock set\<close>

text \<open>
  One half of the invariant holds after every sequence of calls: a lock whose
  held flag is true is in the held-lock set.
\<close>

lemma heartbeat_locks_keeps:
  "coord (snd (heartbeat_locks ls reps w)) = coord w
   \<and> lock_objs (snd (heartbeat_locks ls reps w)) = lock_objs w"
  by (induction ls arbitrary: w)
     (auto simp: lock_heartbeat_def Let_def split: reply.splits prod.splits sum.splits)

lemma lock_step_held_flag_member:
  assumes "held_flag_member w"
  shows "held_flag_member (lock_step c w)"
proof (cases c)
  case (Acquire l blocking rep)
  with assms show ?thesis
    by (cases rep) (auto simp: held_flag_member_def acquire_def Let_def)
next
  case (Release l rep)
  with assms show ?thesis
    by (cases rep) (auto simp: held_flag_member_def release_def Let_def)
next
  case (Heartbeat l rep)
  with assms show ?thesis
    by (cases rep) (auto simp: held_flag_member_def lock_heartbeat_def Let_def)
next
  case (DriverHeartbeat ping reps)
  with assms show ?thesis
    by (cases ping) (auto simp: held_flag_member_def heartbeat_def Let_def heartbeat_locks_keeps)
qed

lemma lock_run_held_flag_member:
  "held_flag_member w \<Longrightarrow> held_flag_member (lock_run calls w)"
  unfolding lock_run_def
  by (induction calls arbitrary: w) (simp_all add: lock_step_held_flag_member)

text \<open>
  C9. The claim is that after any sequence of \<^verbatim>\<open>acquire\<close>, \<^verbatim>\<open>release\<close> and
  \<^verbatim>\<open>heartbeat\<close> calls a lock is in the held-lock set of the driver exactly when
  its held flag is true. After \<^verbatim>\<open>acquire()\<close> succeeded and a second
  \<^verbatim>\<open>acquire(blocking=False)\<close> on the same lock object got false from the store,
  the lock is still in the held-lock set while its flag is false: \<^verbatim>\<open>release()\<close>
  then returns false without a native call, and the heartbeat of the driver no
  longer extends the lease. The second half of the claim holds: a release that the
  store rejects with a lock error keeps the flag and the membership, and the next
  heartbeat of the driver extends the lease.
\<close>

theorem failed_acquire_leaves_lock_in_held_set:
  "(let w = lock_run [Acquire 0 (Bool True) (Returns True),
                      Acquire 0 (Bool False) (Returns False)] demo_locks
    in 0 \<in> set (acquired_locks (coord w))
     \<and> \<not> acquired (lock_objs w 0)
     \<and> release 0 (Returns ()) w = (Inr False, w)
     \<and> native_calls (snd (heartbeat (Returns ()) (\<lambda>l. Returns ()) w)) = native_calls w @ [Ping])
   \<and> (let w = snd (release 0 (Raises (RedisLockError ''not owned'')) demo_held)
      in 0 \<in> set (acquired_locks (coord w))
       \<and> acquired (lock_objs w 0)
       \<and> native_calls (snd (heartbeat (Returns ()) (\<lambda>l. Returns ()) w))
           = native_calls w @ [Ping, LockExtend ''_tooz_res_lock'' 30])"
  by (simp add: lock_run_def acquire_def release_def heartbeat_def lock_heartbeat_def Let_def
      demo_locks_def demo_held_def new_lock_def demo_driver_def)

section \<open>Polling the watchers\<close>

lemma get_members_reads: "snd (get_members d dur g r) = (d, r)"
  by (auto simp: get_members_def submit_def transaction_def get_members_txn_def
      split: option.splits sum.splits)

lemma set_minus_set: "distinct (set_minus a b) \<and> set (set_minus a b) = set a - set b"
  by (auto simp: set_minus_def)

lemma py_set_set: "distinct (py_set xs) \<and> set (py_set xs) = set xs"
  by (simp add: py_set_def)

lemma set_update_set: "distinct (set_update s xs) \<and> set (set_update s xs) = set s \<union> set xs"
  by (simp add: set_update_def)

lemma registered_hash:
  assumes "redis_ok d r" and "g \<in> set (registry d r)"
  shows "\<exists>h. r (encode_group_id d g) = Some (RHash h)"
proof -
  from assms have "redis_exists r (encode_group_id d g)"
    by (auto simp: redis_ok_def registry_ok_def registry_def split: option.splits rvalue.splits)
  then obtain v where v: "r (encode_group_id d g) = Some v"
    by (auto simp: redis_exists_def split: option.splits)
  with assms(1) have "group_hash_ok v"
    by (auto simp: redis_ok_def split: option.splits dest: spec[where x=g])
  with v show ?thesis by (cases v) (auto simp: group_hash_ok_def)
qed

lemma get_members_current:
  assumes "ready d" and "in_time timeout t"
    and "r (encode_group_id d g) = Some (RHash h)"
  shows "call_get timeout (fst (get_members d (Some t) g r)) = Some (Inr (current_members d r g))"
  using get_members_existing[where r=r and h=h and g=g and t=t, OF assms(1,3)]
  by (simp add: call_get_in_time[OF assms(2)] current_members_def group_fields_def assms(3))

lemma watch_group_ok:
  assumes "ready d" and "in_time timeout t"
    and "r (encode_group_id d g) = Some (RHash h)"
  shows "watch_group d (Some t) timeout r g result c =
     Some (Inr (result @ group_events c g (current_members d r g)),
           c\<lparr>group_members := (group_members c)(g \<mapsto> py_set (current_members d r g))\<rparr>)"
  by (simp add: watch_group_def group_events_def hooks_run_def
      get_members_current[where r=r and g=g and h=h, OF assms])

lemma group_events_other:
  "g' \<noteq> g \<Longrightarrow>
   group_events (c\<lparr>group_members := (group_members c)(g \<mapsto> s)\<rparr>) g' cur = group_events c g' cur"
  by (simp add: group_events_def previous_members_def)

lemma watch_groups_ok:
  assumes "ready d" and "in_time timeout t" and "redis_ok d r"
    and "distinct gs" and "set gs \<subseteq> set (registry d r)"
  shows "watch_groups d (Some t) timeout r gs result c =
     Some (Inr (result @ concat (map (\<lambda>g. group_events c g (current_members d r g)) gs)),
           c\<lparr>group_members := (\<lambda>g. if g \<in> set gs then Some (py_set (current_members d r g))
                                     else group_members c g)\<rparr>)"
  using assms(4,5)
proof (induction gs arbitrary: result c)
  case Nil
  then show ?case by simp
next
  case (Cons g gs)
  from Cons.prems have g: "g \<in> set (registry d r)" and notin: "g \<notin> set gs"
    and dist: "distinct gs" and sub: "set gs \<subseteq> set (registry d r)"
    by auto
  from registered_hash[OF assms(3) g] obtain h where h: "r (encode_group_id d g) = Some (RHash h)"
    by blast
  let ?c1 = "c\<lparr>group_members := (group_members c)(g \<mapsto> py_set (current_members d r g))\<rparr>"
  have step: "watch_group d (Some t) timeout r g result c =
     Some (Inr (result @ group_events c g (current_members d r g)), ?c1)"
    by (rule watch_group_ok[where r=r and g=g and h=h, OF assms(1,2) h])
  have ev: "map (\<lambda>g'. group_events ?c1 g' (current_members d r g')) gs
          = map (\<lambda>g'. group_events c g' (current_members d r g')) gs"
    using notin by (intro map_cong refl group_events_other) auto
  have st: "?c1\<lparr>group_members := (\<lambda>g'. if g' \<in> set gs then Some (py_set (current_members d r g'))
                                     else group_members ?c1 g')\<rparr>
          = c\<lparr>group_members := (\<lambda>g'. if g' \<in> set (g # gs) then Some (py_set (current_members d r g'))
                                     else group_members c g')\<rparr>"
    by (auto simp: fun_eq_iff)
  show ?case
    by (simp add: step Cons.IH[OF dist sub] ev st del: set_simps)
qed

text \<open>
  C7. For a started driver on a well-formed key space, with every unit of work
  complete within the timeout, \<^verbatim>\<open>run_watchers\<close> succeeds: it gets the registered
  groups (each once) and for each of them the current members, and what it returns
  is, group after group, what every join callback of the group returns on one
  event per member id of current minus previous snapshot, then what every leave
  callback returns on one event per member id of previous snapshot minus current
  (both differences list each id once). Afterwards the snapshot of every
  registered group is the current member set, the other snapshots and the
  callbacks are as before.
\<close>

theorem run_watchers_reports_membership_changes:
  assumes "ready d" and "redis_ok d r" and "in_time timeout t"
  shows "call_get timeout (fst (get_groups d (Some t) r)) = Some (Inr (registry d r))
       \<and> distinct (registry d r)
       \<and> (\<forall>g \<in> set (registry d r).
             call_get timeout (fst (get_members d (Some t) g r)) = Some (Inr (current_members d r g)))
       \<and> (\<exists>c'. run_watchers d (Some t) timeout r c
                  = Some (Inr (concat (map (\<lambda>g. group_events c g (current_members d r g))
                                         (registry d r))), c')
              \<and> (\<forall>g \<in> set (registry d r).
                    group_members c' g = Some (py_set (current_members d r g)))
              \<and> (\<forall>g. g \<notin> set (registry d r) \<longrightarrow> group_members c' g = group_members c g)
              \<and> hooks_join_group c' = hooks_join_group c
              \<and> hooks_leave_group c' = hooks_leave_group c)
       \<and> distinct (set_minus (py_set cur) prev)
       \<and> set (set_minus (py_set cur) prev) = set cur - set prev
       \<and> distinct (set_minus prev (py_set cur))
       \<and> set (set_minus prev (py_set cur)) = set prev - set cur"
proof -
  have groups: "call_get timeout (fst (get_groups d (Some t) r)) = Some (Inr (registry d r))"
    by (rule get_groups_ok[OF assms(1,2,3)])
  have dist: "distinct (registry d r)"
    by (rule registry_distinct[OF assms(2)])
  have "watch_groups d (Some t) timeout r (registry d r) [] c =
     Some (Inr ([] @ concat (map (\<lambda>g. group_events c g (current_members d r g)) (registry d r))),
           c\<lparr>group_members := (\<lambda>g. if g \<in> set (registry d r)
                                     then Some (py_set (current_members d r g))
                                     else group_members c g)\<rparr>)"
    by (rule watch_groups_ok[OF assms(1,3,2) dist]) simp
  then have run: "\<exists>c'. run_watchers d (Some t) timeout r c
                  = Some (Inr (concat (map (\<lambda>g. group_events c g (current_members d r g))
                                         (registry d r))), c')
              \<and> (\<forall>g \<in> set (registry d r).
                    group_members c' g = Some (py_set (current_members d r g)))
              \<and> (\<forall>g. g \<notin> set (registry d r) \<longrightarrow> group_members c' g = group_members c g)
              \<and> hooks_join_group c' = hooks_join_group c
              \<and> hooks_leave_group c' = hooks_leave_group c"
    by (simp add: run_watchers_def groups)
  have members: "\<forall>g \<in> set (registry d r).
           call_get timeout (fst (get_members d (Some t) g r)) = Some (Inr (current_members d r g))"
  proof
    fix g assume "g \<in> set (registry d r)"
    from registered_hash[OF assms(2) this] obtain h where h: "r (encode_group_id d g) = Some (RHash h)"
      by blast
    show "call_get timeout (fst (get_members d (Some t) g r)) = Some (Inr (current_members d r g))"
      by (rule get_members_current[where r=r and g=g and h=h, OF assms(1,3) h])
  qed
  have diffs: "distinct (set_minus (py_set cur) prev)"
    "set (set_minus (py_set cur) prev) = set cur - set prev"
    "distinct (set_minus prev (py_set cur))"
    "set (set_minus prev (py_set cur)) = set prev - set cur"
    by (simp_all add: set_minus_set py_set_set)
  from groups dist members run diffs show ?thesis by blast
qed

theorem run_watchers_reports_membership_changes_witness:
  "ready demo_driver \<and> redis_ok demo_driver demo_redis
   \<and> in_time (Some 5) 1
   \<and> registry demo_driver demo_redis = [''h'']
   \<and> current_members demo_driver demo_redis ''h'' = [''m2'']
   \<and> previous_members demo_watchers ''h'' = [''m0'']
   \<and> (\<exists>c'. run_watchers demo_driver (Some 1) (Some 5) demo_redis demo_watchers
              = Some (Inr [MemberJoinedGroup ''h'' ''m2'', MemberLeftGroup ''h'' ''m0''], c')
          \<and> group_members c' ''h'' = Some [''m2''])"
proof -
  have h: "ready demo_driver" "redis_ok demo_driver demo_redis"
    "in_time (Some 5) 1"
    by (simp_all add: demo_driver_simps demo_redis_ok in_time_def)
  have reg: "registry demo_driver demo_redis = [''h'']"
    by (simp add: registry_def demo_redis_def demo_keys)
  have cur: "current_members demo_driver demo_redis ''h'' = [''m2'']"
    by (simp add: current_members_def group_fields_def demo_redis_def demo_keys GROUP_EXISTS_def)
  have prev: "previous_members demo_watchers ''h'' = [''m0'']"
    by (simp add: previous_members_def demo_watchers_def)
  have hj: "hooks_join_group demo_watchers ''h'' = [\<lambda>ev. ev]"
    and hl: "hooks_leave_group demo_watchers ''h'' = [\<lambda>ev. ev]"
    by (simp_all add: demo_watchers_def)
  have ev: "group_events demo_watchers ''h'' [''m2'']
          = [MemberJoinedGroup ''h'' ''m2'', MemberLeftGroup ''h'' ''m0'']"
    by (simp add: group_events_def prev hj hl set_minus_def py_set_def)
  note inst = run_watchers_reports_membership_changes[where c=demo_watchers and cur="[]" and prev="[]",
      OF h]
  from inst have "\<exists>c'. run_watchers demo_driver (Some 1) (Some 5) demo_redis demo_watchers
        = Some (Inr [MemberJoinedGroup ''h'' ''m2'', MemberLeftGroup ''h'' ''m0''], c')
      \<and> group_members c' ''h'' = Some [''m2'']"
    apply (simp add: reg cur ev py_set_def)
    apply (elim conjE exE)
    apply (rule exI)
    apply (rule conjI)
     apply assumption+
    done
  with h reg cur prev show ?thesis by simp
qed

section \<open>Registering a watcher\<close>

lemma run_watchers_result:
  assumes "ready d" and "redis_ok d r" and "in_time timeout t"
  shows "run_watchers d (Some t) timeout r c =
     Some (Inr (concat (map (\<lambda>g. group_events c g (current_members d r g)) (registry d r))),
           c\<lparr>group_members := (\<lambda>g. if g \<in> set (registry d r)
                                     then Some (py_set (current_members d r g))
                                     else group_members c g)\<rparr>)"
proof -
  have "watch_groups d (Some t) timeout r (registry d r) [] c =
     Some (Inr ([] @ concat (map (\<lambda>g. group_events c g (current_members d r g)) (registry d r))),
           c\<lparr>group_members := (\<lambda>g. if g \<in> set (registry d r)
                                     then Some (py_set (current_members d r g))
                                     else group_members c g)\<rparr>)"
    by (rule watch_groups_ok[OF assms(1,3,2) registry_distinct[OF assms(2)]]) simp
  then show ?thesis
    by (simp add: run_watchers_def get_groups_ok[OF assms(1,2,3)])
qed

lemma init_watch_group_created:
  assumes "ready d" and "group_created d r g"
  shows "init_watch_group d (Some t) g r c =
     Some (Inr (), c\<lparr>group_members := (group_members c)
                        (g \<mapsto> set_update (previous_members c g) (current_members d r g))\<rparr>)"
proof -
  from created_hash[OF assms(2)] obtain h where h: "r (encode_group_id d g) = Some (RHash h)"
    by blast
  from get_members_existing[where r=r and g=g and h=h and t=t, OF assms(1) h]
  show ?thesis
    by (simp add: init_watch_group_def get_def fut_result_def current_members_def group_fields_def h)
qed

lemma group_events_up_to_date:
  assumes "set (previous_members c g) = set cur"
  shows "group_events c g cur = []"
  using assms by (simp add: group_events_def set_minus_def py_set_def)

lemma group_events_cong:
  assumes "hooks_join_group c1 g = hooks_join_group c g"
    and "hooks_leave_group c1 g = hooks_leave_group c g"
    and "group_members c1 g = group_members c g"
  shows "group_events c1 g cur = group_events c g cur"
  using assms by (simp add: group_events_def previous_members_def)

lemma concat_map_Nil: "(\<And>x. x \<in> set xs \<Longrightarrow> f x = []) \<Longrightarrow> concat (map f xs) = []"
  by (induction xs) auto

lemma registered_snapshot:
  fixes c :: "'r CoordinationDriver"
  assumes "ready d" and c1: "group_members c1 = (group_members c)
               (g \<mapsto> set_update (previous_members c g) (current_members d r g))"
    and hooks: "\<And>g'. g' \<noteq> g \<Longrightarrow> hooks_join_group c1 g' = hooks_join_group c g'
                              \<and> hooks_leave_group c1 g' = hooks_leave_group c g'"
  shows "set (previous_members c1 g) = set (previous_members c g) \<union> set (current_members d r g)
       \<and> (\<forall>g'. g' \<noteq> g \<longrightarrow> group_members c1 g' = group_members c g')
       \<and> set_minus (py_set (current_members d r g)) (previous_members c1 g) = []
       \<and> (set (previous_members c g) \<subseteq> set (current_members d r g) \<longrightarrow>
             set (previous_members c1 g) = set (current_members d r g)
           \<and> group_events c1 g (current_members d r g) = []
           \<and> (redis_ok d r \<and> in_time timeout t
                \<and> (\<forall>g' \<in> set (registry d r). g' \<noteq> g \<longrightarrow>
                      group_events c g' (current_members d r g') = []) \<longrightarrow>
               (\<exists>c2. run_watchers d (Some t) timeout r c1 = Some (Inr [], c2))))
       \<and> (set (current_members d r g) \<subseteq> set (previous_members c g) \<longrightarrow>
             set (previous_members c1 g) = set (previous_members c g))"
proof -
  have snap: "set (previous_members c1 g) = set (previous_members c g) \<union> set (current_members d r g)"
    by (simp add: previous_members_def c1 set_update_def)
  have others: "\<forall>g'. g' \<noteq> g \<longrightarrow> group_members c1 g' = group_members c g'"
    by (simp add: c1)
  have nojoin: "set_minus (py_set (current_members d r g)) (previous_members c1 g) = []"
    using snap by (auto simp: set_minus_def py_set_def filter_empty_conv)
  have sub: "set (previous_members c1 g) = set (current_members d r g)
           \<and> group_events c1 g (current_members d r g) = []
           \<and> (redis_ok d r \<and> in_time timeout t
                \<and> (\<forall>g' \<in> set (registry d r). g' \<noteq> g \<longrightarrow>
                      group_events c g' (current_members d r g') = []) \<longrightarrow>
               (\<exists>c2. run_watchers d (Some t) timeout r c1 = Some (Inr [], c2)))"
    if s: "set (previous_members c g) \<subseteq> set (current_members d r g)"
  proof -
    from snap s have eq: "set (previous_members c1 g) = set (current_members d r g)" by auto
    have quiet: "group_events c1 g (current_members d r g) = []"
      by (rule group_events_up_to_date[OF eq])
    have run: "\<exists>c2. run_watchers d (Some t) timeout r c1 = Some (Inr [], c2)"
      if ok: "redis_ok d r" and tm: "in_time timeout t"
        and rest: "\<forall>g' \<in> set (registry d r). g' \<noteq> g \<longrightarrow>
                      group_events c g' (current_members d r g') = []"
    proof -
      have "group_events c1 g' (current_members d r g') = []" if "g' \<in> set (registry d r)" for g'
      proof (cases "g' = g")
        case True
        with quiet show ?thesis by simp
      next
        case False
        then have "group_events c1 g' (current_members d r g')
                 = group_events c g' (current_members d r g')"
          using hooks[OF False] by (intro group_events_cong) (simp_all add: c1)
        with rest that False show ?thesis by simp
      qed
      then have "concat (map (\<lambda>g'. group_events c1 g' (current_members d r g')) (registry d r)) = []"
        by (rule concat_map_Nil)
      with run_watchers_result[OF assms(1) ok tm, of c1] show ?thesis by simp
    qed
    from eq quiet run show ?thesis by blast
  qed
  have sup: "set (previous_members c1 g) = set (previous_members c g)"
    if "set (current_members d r g) \<subseteq> set (previous_members c g)"
    using snap that by auto
  from snap others nojoin sub sup show ?thesis by blast
qed

text \<open>
  C8, as amended. Every \<^verbatim>\<open>watch_join_group\<close> or \<^verbatim>\<open>watch_leave_group\<close> of a started
  driver on a created group \<open>g\<close> succeeds, registers the callback and merges the
  members it fetches into the snapshot of \<open>g\<close>: the new snapshot is the old one
  united with the current membership, the other snapshots are untouched, and a
  poll that follows at once has no join event for \<open>g\<close>. When the old snapshot
  was empty or within the current membership, the new snapshot is exactly the
  current membership and the poll has no event for \<open>g\<close> at all; if no other
  registered group has an event pending, \<^verbatim>\<open>run_watchers\<close> returns nothing. A
  registration made while the snapshot already holds every current member leaves
  the snapshot the same set.
\<close>

theorem registration_merges_snapshot:
  fixes c :: "'r CoordinationDriver"
  assumes "ready d" and "group_created d r g"
    and "reg = watch_join_group \<or> reg = watch_leave_group"
  shows "\<exists>c1. reg d (Some t) g cb r c = Some (Inr (), c1)
          \<and> (cb \<in> set (hooks_join_group c1 g) \<or> cb \<in> set (hooks_leave_group c1 g))
          \<and> set (previous_members c1 g) = set (previous_members c g) \<union> set (current_members d r g)
          \<and> (\<forall>g'. g' \<noteq> g \<longrightarrow> group_members c1 g' = group_members c g')
          \<and> set_minus (py_set (current_members d r g)) (previous_members c1 g) = []
          \<and> (set (previous_members c g) \<subseteq> set (current_members d r g) \<longrightarrow>
                set (previous_members c1 g) = set (current_members d r g)
              \<and> group_events c1 g (current_members d r g) = []
              \<and> (redis_ok d r \<and> in_time timeout t
                   \<and> (\<forall>g' \<in> set (registry d r). g' \<noteq> g \<longrightarrow>
                         group_events c g' (current_members d r g') = []) \<longrightarrow>
                  (\<exists>c2. run_watchers d (Some t) timeout r c1 = Some (Inr [], c2))))
          \<and> (set (current_members d r g) \<subseteq> set (previous_members c g) \<longrightarrow>
                set (previous_members c1 g) = set (previous_members c g))"
proof -
  let ?ci = "c\<lparr>group_members := (group_members c)
                 (g \<mapsto> set_update (previous_members c g) (current_members d r g))\<rparr>"
  note init = init_watch_group_created[OF assms(1,2), of t c]
  from assms(3) show ?thesis
  proof
    assume reg: "reg = watch_join_group"
    let ?c1 = "super_watch_join_group g cb ?ci"
    have run: "reg d (Some t) g cb r c = Some (Inr (), ?c1)"
      by (simp add: reg watch_join_group_def init)
    have cb: "cb \<in> set (hooks_join_group ?c1 g)"
      by (simp add: super_watch_join_group_def)
    have snap: "set (previous_members ?c1 g) = set (previous_members c g) \<union> set (current_members d r g)
          \<and> (\<forall>g'. g' \<noteq> g \<longrightarrow> group_members ?c1 g' = group_members c g')
          \<and> set_minus (py_set (current_members d r g)) (previous_members ?c1 g) = []
          \<and> (set (previous_members c g) \<subseteq> set (current_members d r g) \<longrightarrow>
                set (previous_members ?c1 g) = set (current_members d r g)
              \<and> group_events ?c1 g (current_members d r g) = []
              \<and> (redis_ok d r \<and> in_time timeout t
                   \<and> (\<forall>g' \<in> set (registry d r). g' \<noteq> g \<longrightarrow>
                         group_events c g' (current_members d r g') = []) \<longrightarrow>
                  (\<exists>c2. run_watchers d (Some t) timeout r ?c1 = Some (Inr [], c2))))
          \<and> (set (current_members d r g) \<subseteq> set (previous_members c g) \<longrightarrow>
                set (previous_members ?c1 g) = set (previous_members c g))"
      by (rule registered_snapshot[OF assms(1)]) (simp_all add: super_watch_join_group_def)
    from run cb snap show ?thesis by blast
  next
    assume reg: "reg = watch_leave_group"
    let ?c1 = "super_watch_leave_group g cb ?ci"
    have run: "reg d (Some t) g cb r c = Some (Inr (), ?c1)"
      by (simp add: reg watch_leave_group_def init)
    have cb: "cb \<in> set (hooks_leave_group ?c1 g)"
      by (simp add: super_watch_leave_group_def)
    have snap: "set (previous_members ?c1 g) = set (previous_members c g) \<union> set (current_members d r g)
          \<and> (\<forall>g'. g' \<noteq> g \<longrightarrow> group_members ?c1 g' = group_members c g')
          \<and> set_minus (py_set (current_members d r g)) (previous_members ?c1 g) = []
          \<and> (set (previous_members c g) \<subseteq> set (current_members d r g) \<longrightarrow>
                set (previous_members ?c1 g) = set (current_members d r g)
              \<and> group_events ?c1 g (current_members d r g) = []
              \<and> (redis_ok d r \<and> in_time timeout t
                   \<and> (\<forall>g' \<in> set (registry d r). g' \<noteq> g \<longrightarrow>
                         group_events c g' (current_members d r g') = []) \<longrightarrow>
                  (\<exists>c2. run_watchers d (Some t) timeout r ?c1 = Some (Inr [], c2))))
          \<and> (set (current_members d r g) \<subseteq> set (previous_members c g) \<longrightarrow>
                set (previous_members ?c1 g) = set (previous_members c g))"
      by (rule registered_snapshot[OF assms(1)]) (simp_all add: super_watch_leave_group_def)
    from run cb snap show ?thesis by blast
  qed
qed

lemma demo_created_eq:
  "demo_created = [''_tooz_groups'' \<mapsto> RSet [''g''],
                   ''_tooz_group:g'' \<mapsto> RHash [(''__created__'', ''1'')]]"
  by (simp add: demo_created_def create_group_def submit_def transaction_def create_group_txn_def
      demo_driver_simps demo_keys redis_exists_def sadd_def hset_def GROUP_EXISTS_def)

lemma demo_joined_eq:
  "demo_joined = [''_tooz_groups'' \<mapsto> RSet [''g''],
                  ''_tooz_group:g'' \<mapsto> RHash [(''__created__'', ''1''), (''m1'', ''caps'')]]"
  by (simp add: demo_joined_def demo_created_eq join_group_def encode_member_id_def submit_def
      transaction_def join_group_txn_def dumps_def demo_driver_simps demo_keys redis_exists_def
      hset_def GROUP_EXISTS_def)

lemma demo_left_eq:
  "demo_left = [''_tooz_groups'' \<mapsto> RSet [''g''],
                ''_tooz_group:g'' \<mapsto> RHash [(''__created__'', ''1'')]]"
  by (simp add: demo_left_def demo_joined_eq leave_group_def encode_member_id_def submit_def
      transaction_def leave_group_txn_def demo_driver_simps demo_keys redis_exists_def
      hdel_def GROUP_EXISTS_def)

lemmas watch_eval =
  run_watchers_def watch_group_def get_groups_def get_members_def submit_def transaction_def
  get_groups_work_def get_members_txn_def smembers_def hkeys_def redis_exists_def call_get_def
  get_def fut_result_def decode_member_id_def GROUP_EXISTS_def demo_driver_simps demo_keys
  hooks_run_def set_minus_def py_set_def set_update_def previous_members_def no_watchers_def
  watch_join_group_def watch_leave_group_def init_watch_group_def super_watch_join_group_def
  super_watch_leave_group_def current_members_def group_fields_def

lemma demo_joined_ok: "redis_ok demo_driver demo_joined"
  by (simp add: redis_ok_def registry_ok_def demo_joined_eq demo_keys group_hash_ok_def
      GROUP_EXISTS_def redis_exists_def)

theorem registration_merges_snapshot_witness:
  "ready demo_driver \<and> group_created demo_driver demo_joined ''g''
   \<and> current_members demo_driver demo_joined ''g'' = [''m1'']
   \<and> previous_members (no_watchers :: event CoordinationDriver) ''g'' = []
   \<and> (\<exists>c1. watch_join_group demo_driver (Some 0) ''g'' report demo_joined no_watchers
              = Some (Inr (), c1)
          \<and> set (previous_members c1 ''g'') = {''m1''}
          \<and> (\<exists>c2. run_watchers demo_driver (Some 0) None demo_joined c1 = Some (Inr [], c2)))"
proof -
  have h: "ready demo_driver"
    "group_created demo_driver demo_joined ''g''"
    by (simp_all add: demo_driver_simps group_created_def hexists_def demo_joined_eq demo_keys
        GROUP_EXISTS_def)
  have cur: "current_members demo_driver demo_joined ''g'' = [''m1'']"
    by (simp add: current_members_def group_fields_def demo_joined_eq demo_keys GROUP_EXISTS_def)
  have prev: "previous_members (no_watchers :: event CoordinationDriver) ''g'' = []"
    by (simp add: previous_members_def no_watchers_def)
  have reg: "registry demo_driver demo_joined = [''g'']"
    by (simp add: registry_def demo_joined_eq demo_keys)
  have t: "in_time None 0"
    by (simp add: in_time_def)
  from registration_merges_snapshot[where reg=watch_join_group and cb=report
      and c="no_watchers :: event CoordinationDriver" and t=0 and timeout=None,
      OF h disjI1[OF refl]]
  obtain c1 where run: "watch_join_group demo_driver (Some 0) ''g'' report demo_joined no_watchers
              = Some (Inr (), c1)"
    and sub: "set (previous_members (no_watchers :: event CoordinationDriver) ''g'')
                 \<subseteq> set (current_members demo_driver demo_joined ''g'') \<longrightarrow>
               set (previous_members c1 ''g'') = set (current_members demo_driver demo_joined ''g'')
             \<and> group_events c1 ''g'' (current_members demo_driver demo_joined ''g'') = []
             \<and> (redis_ok demo_driver demo_joined \<and> in_time None 0
                  \<and> (\<forall>g' \<in> set (registry demo_driver demo_joined). g' \<noteq> ''g'' \<longrightarrow>
                        group_events (no_watchers :: event CoordinationDriver) g'
                          (current_members demo_driver demo_joined g') = []) \<longrightarrow>
                 (\<exists>c2. run_watchers demo_driver (Some 0) None demo_joined c1 = Some (Inr [], c2)))"
    by (elim exE conjE) (rule that; assumption)
  from sub have snap: "set (previous_members c1 ''g'') = {''m1''}"
    and poll: "\<exists>c2. run_watchers demo_driver (Some 0) None demo_joined c1 = Some (Inr [], c2)"
    by (simp_all add: prev cur reg demo_joined_ok t)
  from run snap poll have "\<exists>c1. watch_join_group demo_driver (Some 0) ''g'' report demo_joined no_watchers
              = Some (Inr (), c1)
          \<and> set (previous_members c1 ''g'') = {''m1''}
          \<and> (\<exists>c2. run_watchers demo_driver (Some 0) None demo_joined c1 = Some (Inr [], c2))"
    by (rule_tac x=c1 in exI) simp
  with h cur prev show ?thesis by simp
qed

text \<open>
  C8 as stated fails on two runs. First run: the group \<open>g\<close> has the member \<open>m1\<close>,
  \<^verbatim>\<open>run_watchers\<close> is called before any watcher is registered and stores the
  snapshot \<open>m1\<close>; \<open>m1\<close> leaves; the first registration for \<open>g\<close>, a
  \<^verbatim>\<open>watch_leave_group\<close>, then leaves the snapshot at \<open>m1\<close> although the group is
  empty, and the \<^verbatim>\<open>run_watchers\<close> right after it calls the callback with the
  leave of \<open>m1\<close>. Second run: a join watcher is registered on the empty group,
  \<open>m1\<close> joins (a poll now would report the join), a second registration for \<open>g\<close>
  puts \<open>m1\<close> into the snapshot, and the poll after it reports nothing.
\<close>

theorem registration_keeps_stale_snapshot:
  "run_watchers demo_driver (Some 0) None demo_joined no_watchers = Some (Inr [], polled)
   \<and> current_members demo_driver demo_left ''g'' = []
   \<and> watch_leave_group demo_driver (Some 0) ''g'' report demo_left polled
       = Some (Inr (), polled_watching)
   \<and> previous_members polled_watching ''g'' = [''m1'']
   \<and> map_option fst (run_watchers demo_driver (Some 0) None demo_left polled_watching)
       = Some (Inr [MemberLeftGroup ''g'' ''m1''])
   \<and> watch_join_group demo_driver (Some 0) ''g'' report demo_created no_watchers
       = Some (Inr (), watching)
   \<and> map_option fst (run_watchers demo_driver (Some 0) None demo_joined watching)
       = Some (Inr [MemberJoinedGroup ''g'' ''m1''])
   \<and> watch_leave_group demo_driver (Some 0) ''g'' report demo_joined watching
       = Some (Inr (), watching_twice)
   \<and> previous_members watching_twice ''g'' = [''m1'']
   \<and> map_option fst (run_watchers demo_driver (Some 0) None demo_joined watching_twice)
       = Some (Inr [])"
  by (simp add: demo_joined_eq demo_left_eq demo_created_eq watch_eval polled_def
      polled_watching_def watching_def watching_twice_def report_def)

section \<open>Well-formed key spaces are kept\<close>

text \<open>
  The empty key space is well formed (\<open>redis_ok_empty\<close>), and every group
  operation of a driver leaves a well-formed key space well formed; the two reads
  change nothing. So the key spaces that the drivers of one namespace build from
  the empty one are all well formed.
\<close>

lemma redis_ok_update_hash:
  assumes ok: "redis_ok d r" and h: "r (encode_group_id d g) = Some (RHash h)"
    and h': "distinct (map fst h')" "GROUP_EXISTS \<in> fst ` set h'"
  shows "redis_ok d (r(encode_group_id d g \<mapsto> RHash h'))"
proof -
  let ?r = "r(encode_group_id d g \<mapsto> RHash h')"
  have hashes: "case ?r (encode_group_id d g') of None \<Rightarrow> True | Some v \<Rightarrow> group_hash_ok v" for g'
    using ok h' by (cases "g' = g") (simp_all add: encode_group_id_inj group_hash_ok_def redis_ok_def)
  have ex: "redis_exists ?r k = redis_exists r k" for k
    using h by (simp add: redis_exists_def)
  have "registry_ok d ?r"
    using ok groups_ne_group_key[of d g]
    by (auto simp: redis_ok_def registry_ok_def ex split: option.splits rvalue.splits)
  with hashes show ?thesis by (simp add: redis_ok_def)
qed

lemma group_hash_fields:
  assumes "redis_ok d r" and "r (encode_group_id d g) = Some v"
  shows "\<exists>h. v = RHash h \<and> distinct (map fst h) \<and> GROUP_EXISTS \<in> fst ` set h"
proof -
  from assms have "group_hash_ok v"
    by (auto simp: redis_ok_def split: option.splits dest: spec[where x=g])
  then show ?thesis by (cases v) (auto simp: group_hash_ok_def)
qed

lemma hset_group_ok:
  assumes "redis_ok d r" and "hset (encode_group_id d g) f v r = Inr (n, r')"
    and "redis_exists r (encode_group_id d g)"
  shows "redis_ok d r'"
proof -
  from assms(3) obtain w where w: "r (encode_group_id d g) = Some w"
    by (auto simp: redis_exists_def split: option.splits)
  from group_hash_fields[OF assms(1) w] obtain h where h: "w = RHash h"
    and dist: "distinct (map fst h)" and sent: "GROUP_EXISTS \<in> fst ` set h"
    by blast
  from assms(2) w h have r': "r' = r(encode_group_id d g \<mapsto> RHash (AList.update f v h))"
    by (simp add: hset_def)
  show ?thesis
    unfolding r'
    by (rule redis_ok_update_hash[OF assms(1) w[unfolded h]])
       (simp_all add: distinct_update dist dom_update sent)
qed

lemma hdel_group_ok:
  assumes "redis_ok d r" and "hdel (encode_group_id d g) f r = Inr (n, r')"
    and "f \<noteq> GROUP_EXISTS"
  shows "redis_ok d r'"
proof (cases "r (encode_group_id d g)")
  case None
  with assms show ?thesis by (simp add: hdel_def)
next
  case (Some w)
  from group_hash_fields[OF assms(1) Some] obtain h where h: "w = RHash h"
    and dist: "distinct (map fst h)" and sent: "GROUP_EXISTS \<in> fst ` set h"
    by blast
  show ?thesis
  proof (cases "map_of h f")
    case None
    with assms Some h show ?thesis by (simp add: hdel_def)
  next
    case (Some old)
    have keep: "GROUP_EXISTS \<in> fst ` set (AList.delete f h)"
      using sent assms(3) by (force simp: AList.delete_eq)
    then have ne: "AList.delete f h \<noteq> []" by auto
    from assms(2) \<open>r (encode_group_id d g) = Some w\<close> h Some ne
    have r': "r' = r(encode_group_id d g \<mapsto> RHash (AList.delete f h))"
      by (simp add: hdel_def)
    show ?thesis
      unfolding r'
      by (rule redis_ok_update_hash[OF assms(1) \<open>r (encode_group_id d g) = Some w\<close>[unfolded h]])
         (simp_all add: distinct_delete dist keep)
  qed
qed

lemma group_operations_keep_redis_ok:
  assumes "redis_ok d r"
  shows "redis_ok d (snd (snd (create_group d dur g r)))"
    and "redis_ok d (snd (snd (join_group pack d dur g caps r)))"
    and "redis_ok d (snd (snd (leave_group d dur g r)))"
    and "redis_ok d (snd (snd (update_capabilities pack d dur g caps r)))"
    and "snd (get_members d dur g r) = (d, r)"
    and "snd (get_groups d dur r) = (d, r)"
proof -
  show "redis_ok d (snd (snd (create_group d dur g r)))"
    using create_group_step[OF assms, of dur g] by (cases "create_group d dur g r") auto
  have join: "redis_ok d (snd (snd (join_group_txn pack d g em caps r)))" for em
    using assms
    by (auto simp: join_group_txn_def split: sum.splits prod.splits dest: hset_group_ok)
  have upd: "redis_ok d (snd (snd (update_capabilities_txn pack d g em caps r)))" for em
    using assms
    by (auto simp: update_capabilities_txn_def split: sum.splits prod.splits dest: hset_group_ok)
  have leave: "redis_ok d (snd (snd (leave_group_txn d g em r)))" if "em \<noteq> GROUP_EXISTS" for em
    using assms that
    by (auto simp: leave_group_txn_def split: sum.splits prod.splits dest: hdel_group_ok)
  show "redis_ok d (snd (snd (join_group pack d dur g caps r)))"
    using assms join[of "member_id d"]
    by (auto simp: join_group_def encode_member_id_def submit_def transaction_def
        split: option.splits prod.splits)
  show "redis_ok d (snd (snd (leave_group d dur g r)))"
    using assms leave[of "member_id d"]
    by (auto simp: leave_group_def encode_member_id_def submit_def transaction_def
        split: option.splits prod.splits)
  show "redis_ok d (snd (snd (update_capabilities pack d dur g caps r)))"
    using assms upd[of "member_id d"]
    by (auto simp: update_capabilities_def encode_member_id_def submit_def transaction_def
        split: option.splits prod.splits)
  show "snd (get_members d dur g r) = (d, r)"
    by (rule get_members_reads)
  show "snd (get_groups d dur r) = (d, r)"
    by (auto simp: get_groups_def submit_def get_groups_work_def split: option.splits sum.splits)
qed

end
